theory Spec2Isabelle
  imports Main "HOL-Library.Char_ord" "HOL-Library.List_Lexorder"
begin

section \<open>Icon library deduplicator: shared data model\<close>

text \<open>
  The repository holds four scripts: the exact (hash) deduplicator, the visual
  deduplicator, the design-tool marker with the visual deleter, and the hash deleter.
  The own properties of a JavaScript object with string keys are an association list that
  keeps insertion order; strings are \<open>string\<close>; a thrown exception is the \<open>Inl\<close>
  branch of a sum. The grouper reads its object \<open>groups\<close> by icon names, which come from
  file names, so its lookups are modelled with the properties that an object literal
  inherits from \<open>Object.prototype\<close>.
\<close>

type_synonym 'v obj = "(string \<times> 'v) list"

text \<open>\<open>o[k] = v\<close>: an existing own property keeps its place, a new one goes last.\<close>

fun objSet :: "string \<Rightarrow> 'v \<Rightarrow> 'v obj \<Rightarrow> 'v obj" where
  "objSet k v [] = [(k, v)]"
| "objSet k v (p # ps) = (if fst p = k then (k, v) # ps else p # objSet k v ps)"

text \<open>
  Own property keys are enumerated with the array indices first, in ascending numeric
  order, and the other keys in insertion order. An array index is a canonical decimal
  numeral below \<open>2^32 - 1\<close>.
\<close>

definition isDigit :: "char \<Rightarrow> bool" where
  "isDigit c = (CHR ''0'' \<le> c \<and> c \<le> CHR ''9'')"

definition digitsValue :: "string \<Rightarrow> int" where
  "digitsValue s = foldl (\<lambda>n c. 10 * n + (of_char c - 48)) 0 s"

definition isArrayIndex :: "string \<Rightarrow> bool" where
  "isArrayIndex s =
     (case s of
        [] \<Rightarrow> False
      | c # cs \<Rightarrow> list_all isDigit s \<and> (cs = [] \<or> c \<noteq> CHR ''0'') \<and> length s \<le> 10
                 \<and> digitsValue s < 4294967295)"

definition objectEntries :: "'v obj \<Rightarrow> (string \<times> 'v) list" where
  "objectEntries ob =
     sort_key (\<lambda>p. digitsValue (fst p)) (filter (\<lambda>p. isArrayIndex (fst p)) ob)
     @ filter (\<lambda>p. \<not> isArrayIndex (fst p)) ob"

definition STYLES :: "string list" where
  "STYLES = [''outlined'', ''filled'', ''sharp'', ''round'']"

datatype error = ReaddirFailed | TypeError | ReadFileFailed | RenderFailed | CompareFailed
  | ParseFailed | UnlinkFailed

text \<open>
  \<open>path.join\<close> on an absolute normalised directory and a plain entry name (POSIX).
\<close>

definition pathJoin :: "string \<Rightarrow> string \<Rightarrow> string" where
  "pathJoin a b = a @ ''/'' @ b"

definition endsWith :: "string \<Rightarrow> string \<Rightarrow> bool" where
  "endsWith s suf = (length suf \<le> length s \<and> drop (length s - length suf) s = suf)"

text \<open>\<open>path.basename(file, ext)\<close> for a directory entry name (no separator in it).\<close>

definition basename :: "string \<Rightarrow> string \<Rightarrow> string" where
  "basename file ext =
     (if endsWith file ext then take (length file - length ext) file else file)"

section \<open>The grouper (both deduplicators)\<close>

text \<open>
  What \<open>fs.existsSync\<close> and \<open>fs.readdirSync\<close> see at a path: nothing, something
  that is not a directory (the listing throws), or a directory with its entry names in
  the order the file system returns them.
\<close>

datatype dirent = Absent | NotADirectory | Listing "string list"

type_synonym groups = "(string obj) obj"

text \<open>
  \<open>const groups = {}\<close> inherits from \<open>Object.prototype\<close>. The state of the scan is
  the own properties of \<open>groups\<close> and the properties that the scan itself has put on
  \<open>Object.prototype\<close>. The functions that \<open>Object.prototype\<close> has from the start:
\<close>

definition objectPrototypeFunctions :: "string list" where
  "objectPrototypeFunctions =
     [''constructor'', ''__defineGetter__'', ''__defineSetter__'', ''hasOwnProperty'',
      ''__lookupGetter__'', ''__lookupSetter__'', ''isPrototypeOf'', ''propertyIsEnumerable'',
      ''toString'', ''valueOf'', ''toLocaleString'']"

record gstate =
  ownProps :: groups
  protoProps :: "string obj"

text \<open>
  What \<open>groups[iconName]\<close> evaluates to: an own property, else \<open>Object.prototype\<close>
  itself for \<open>__proto__\<close>, a path string that the scan has put there, one of its
  functions, or \<open>undefined\<close>.
\<close>

datatype looked = Own "string obj" | ProtoObject | ProtoString string | ProtoFunction | Undefined

definition lookupGroup :: "gstate \<Rightarrow> string \<Rightarrow> looked" where
  "lookupGroup st iconName =
     (case map_of (ownProps st) iconName of
        Some variants \<Rightarrow> Own variants
      | None \<Rightarrow>
          if iconName = ''__proto__'' then ProtoObject
          else
            (case map_of (protoProps st) iconName of
               Some path \<Rightarrow> ProtoString path
             | None \<Rightarrow>
                 if iconName \<in> set objectPrototypeFunctions then ProtoFunction else Undefined))"

text \<open>
  The body of the inner loop:
  \<open>if (!groups[iconName]) groups[iconName] = {}; groups[iconName][style] = path.join(dir, file);\<close>
  Only \<open>undefined\<close> is falsy here. The assignment adds to the own entry; on
  \<open>Object.prototype\<close> it adds the style as a property that every object then inherits;
  on a function it has no effect on \<open>groups\<close>; on a string it throws, the script being
  a module and so in strict mode. The styles are those of \<open>STYLES\<close>, none of which
  \<open>Object.prototype\<close> has from the start.
\<close>

definition addFile :: "string \<Rightarrow> string \<Rightarrow> string \<Rightarrow> gstate \<Rightarrow> error + gstate" where
  "addFile dir style file st =
     (if \<not> endsWith file ''.svg'' then Inr st
      else
        let iconName = basename file ''.svg'' in
        case lookupGroup st iconName of
          Undefined \<Rightarrow>
            Inr (st\<lparr>ownProps := objSet iconName [(style, pathJoin dir file)] (ownProps st)\<rparr>)
        | Own variants \<Rightarrow>
            Inr (st\<lparr>ownProps :=
                      objSet iconName (objSet style (pathJoin dir file) variants) (ownProps st)\<rparr>)
        | ProtoObject \<Rightarrow>
            Inr (st\<lparr>protoProps := objSet style (pathJoin dir file) (protoProps st)\<rparr>)
        | ProtoFunction \<Rightarrow> Inr st
        | ProtoString s \<Rightarrow> Inl TypeError)"

fun scanFiles :: "string \<Rightarrow> string \<Rightarrow> string list \<Rightarrow> gstate \<Rightarrow> error + gstate" where
  "scanFiles dir style [] st = Inr st"
| "scanFiles dir style (file # rest) st =
     (case addFile dir style file st of
        Inl e \<Rightarrow> Inl e
      | Inr st' \<Rightarrow> scanFiles dir style rest st')"

fun scanStyles :: "(string \<Rightarrow> dirent) \<Rightarrow> string \<Rightarrow> string list \<Rightarrow> gstate \<Rightarrow> error + gstate" where
  "scanStyles fs iconDir [] st = Inr st"
| "scanStyles fs iconDir (style # rest) st =
     (case fs (pathJoin iconDir style) of
        Absent \<Rightarrow> scanStyles fs iconDir rest st
      | NotADirectory \<Rightarrow> Inl ReaddirFailed
      | Listing files \<Rightarrow>
          (case scanFiles (pathJoin iconDir style) style files st of
             Inl e \<Rightarrow> Inl e
           | Inr st' \<Rightarrow> scanStyles fs iconDir rest st'))"

text \<open>
  The grouper returns \<open>groups\<close>; its consumers enumerate own properties and assign, which
  what the scan has put on \<open>Object.prototype\<close> does not change.
\<close>

definition groupIconsByName :: "(string \<Rightarrow> dirent) \<Rightarrow> string \<Rightarrow> error + groups" where
  "groupIconsByName fs iconDir =
     (case scanStyles fs iconDir STYLES \<lparr>ownProps = [], protoProps = []\<rparr> of
        Inl e \<Rightarrow> Inl e
      | Inr st \<Rightarrow> Inr (ownProps st))"






section \<open>Keep and remove of one cluster (both deduplicators)\<close>

text \<open>
  \<open>const keep = cluster.includes("outlined") ? "outlined" : cluster.sort()[0];\<close>
  \<open>const remove = cluster.filter((style) => style !== keep);\<close>
  \<open>sort\<close> sorts the array in place, by code units, and is only reached without
  "outlined"; \<open>[0]\<close> of an empty array is \<open>undefined\<close>, here \<open>None\<close>.
\<close>

definition resolveCluster :: "string list \<Rightarrow> string option \<times> string list" where
  "resolveCluster cluster =
     (if ''outlined'' \<in> set cluster
      then (Some ''outlined'', filter (\<lambda>style. style \<noteq> ''outlined'') cluster)
      else
        let sorted = sort cluster;
            keep = (case sorted of [] \<Rightarrow> None | k # _ \<Rightarrow> Some k)
        in (keep, filter (\<lambda>style. Some style \<noteq> keep) sorted))"

definition clusterKeep :: "string list \<Rightarrow> string option" where
  "clusterKeep cluster = fst (resolveCluster cluster)"

definition clusterRemove :: "string list \<Rightarrow> string list" where
  "clusterRemove cluster = snd (resolveCluster cluster)"

text \<open>A counter that \<open>++\<close> is applied to: a number, or \<open>NaN\<close> (from \<open>undefined\<close>).\<close>

datatype jsnum = Num nat | NaN

fun jsIncr :: "jsnum \<Rightarrow> jsnum" where
  "jsIncr (Num n) = Num (Suc n)"
| "jsIncr NaN = NaN"

fun jsAdd :: "jsnum \<Rightarrow> jsnum \<Rightarrow> jsnum" where
  "jsAdd (Num a) (Num b) = Num (a + b)"
| "jsAdd _ _ = NaN"

definition jsSum :: "jsnum list \<Rightarrow> jsnum" where
  "jsSum xs = foldl jsAdd (Num 0) xs"

definition tallyGet :: "jsnum obj \<Rightarrow> string \<Rightarrow> jsnum" where
  "tallyGet t style = (case map_of t style of None \<Rightarrow> NaN | Some v \<Rightarrow> v)"

text \<open>\<open>removedPerStyle[style]++\<close>\<close>

definition bumpStyle :: "string \<Rightarrow> jsnum obj \<Rightarrow> jsnum obj" where
  "bumpStyle style t = objSet style (jsIncr (tallyGet t style)) t"

section \<open>The exact (hash) deduplicator\<close>

text \<open>
  \<open>getFileHash\<close> reads a file and digests it; it is a parameter here, \<open>None\<close> where
  reading the path throws. The digest is 32 hexadecimal characters in the program, so it
  names no property of \<open>Object.prototype\<close>, and \<open>hashMap[hash]\<close> is an own
  property or \<open>undefined\<close>.
\<close>

record hdecision =
  hkeep :: "string option list"
  hremove :: "string list"

record hstate =
  hreport :: "hdecision obj"
  totalIcons :: nat
  totalIconsAffected :: nat
  totalFilesRemoved :: nat
  removedPerStyle :: "jsnum obj"

fun computeHashes ::
  "(string \<Rightarrow> string option) \<Rightarrow> (string \<times> string) list \<Rightarrow> string obj \<Rightarrow> error + string obj" where
  "computeHashes getFileHash [] hashes = Inr hashes"
| "computeHashes getFileHash ((style, filePath) # rest) hashes =
     (case getFileHash filePath of
        None \<Rightarrow> Inl ReadFileFailed
      | Some hash \<Rightarrow> computeHashes getFileHash rest (objSet style hash hashes))"

fun buildHashMap :: "(string \<times> string) list \<Rightarrow> (string list) obj \<Rightarrow> (string list) obj" where
  "buildHashMap [] hashMap = hashMap"
| "buildHashMap ((style, hash) # rest) hashMap =
     buildHashMap rest
       (objSet hash ((case map_of hashMap hash of None \<Rightarrow> [] | Some g \<Rightarrow> g) @ [style]) hashMap)"

definition duplicateClusters :: "(string list) obj \<Rightarrow> string list list" where
  "duplicateClusters hashMap = filter (\<lambda>g. length g > 1) (map snd (objectEntries hashMap))"

text \<open>
  The loop over the clusters of one icon. It pushes to the entry that
  \<open>report[iconName]\<close> refers to, and counts.
\<close>

fun processClusters ::
  "string list list \<Rightarrow> hdecision \<times> nat \<times> jsnum obj \<Rightarrow> hdecision \<times> nat \<times> jsnum obj" where
  "processClusters [] acc = acc"
| "processClusters (cluster # rest) (entry, filesRemoved, tally) =
     (case resolveCluster cluster of
        (keep, remove) \<Rightarrow>
          processClusters rest
            (entry\<lparr>hkeep := hkeep entry @ [keep], hremove := hremove entry @ remove\<rparr>,
             filesRemoved + length remove,
             foldl (\<lambda>t style. bumpStyle style t) tally remove))"

definition iconClusters ::
  "(string \<Rightarrow> string option) \<Rightarrow> string obj \<Rightarrow> error + string list list" where
  "iconClusters getFileHash variants =
     (case computeHashes getFileHash (objectEntries variants) [] of
        Inl e \<Rightarrow> Inl e
      | Inr hashes \<Rightarrow> Inr (duplicateClusters (buildHashMap (objectEntries hashes) [])))"

definition processIcon ::
  "(string \<Rightarrow> string option) \<Rightarrow> hstate \<Rightarrow> string \<times> string obj \<Rightarrow> error + hstate" where
  "processIcon getFileHash st entry =
     (case entry of
        (iconName, variants) \<Rightarrow>
          (case iconClusters getFileHash variants of
             Inl e \<Rightarrow> Inl e
           | Inr clusters \<Rightarrow>
               let st1 = st\<lparr>totalIcons := totalIcons st + 1\<rparr> in
               if length clusters > 0
               then
                 (case processClusters clusters
                         (\<lparr>hkeep = [], hremove = []\<rparr>, totalFilesRemoved st1, removedPerStyle st1) of
                    (decision, filesRemoved, tally) \<Rightarrow>
                      Inr (st1\<lparr>hreport := objSet iconName decision (hreport st1),
                               totalIconsAffected := totalIconsAffected st1 + 1,
                               totalFilesRemoved := filesRemoved,
                               removedPerStyle := tally\<rparr>))
               else Inr st1))"

fun processEntries ::
  "(string \<Rightarrow> string option) \<Rightarrow> (string \<times> string obj) list \<Rightarrow> hstate \<Rightarrow> error + hstate" where
  "processEntries getFileHash [] st = Inr st"
| "processEntries getFileHash (entry # rest) st =
     (case processIcon getFileHash st entry of
        Inl e \<Rightarrow> Inl e
      | Inr st' \<Rightarrow> processEntries getFileHash rest st')"

definition hInit :: hstate where
  "hInit = \<lparr>hreport = [], totalIcons = 0, totalIconsAffected = 0, totalFilesRemoved = 0,
            removedPerStyle = map (\<lambda>s. (s, Num 0)) STYLES\<rparr>"

text \<open>
  The run: the state at the point where the report is written and the statistics are
  printed, or the exception that ended the run before anything was written.
\<close>

definition processIconGroups ::
  "(string \<Rightarrow> dirent) \<Rightarrow> string \<Rightarrow> (string \<Rightarrow> string option) \<Rightarrow> error + hstate" where
  "processIconGroups fs iconDir getFileHash =
     (case groupIconsByName fs iconDir of
        Inl e \<Rightarrow> Inl e
      | Inr iconGroups \<Rightarrow> processEntries getFileHash (objectEntries iconGroups) hInit)"

text \<open>
  For the statements below: the decision that the clusters of one icon add up to, and
  the entries that a list of icons contributes to the report.
\<close>

definition clustersDecision :: "string list list \<Rightarrow> hdecision" where
  "clustersDecision cs = \<lparr>hkeep = map clusterKeep cs, hremove = concat (map clusterRemove cs)\<rparr>"

definition iconDecisions ::
  "(string \<Rightarrow> string option) \<Rightarrow> string \<times> string obj \<Rightarrow> (string \<times> hdecision) list" where
  "iconDecisions getFileHash entry =
     (case iconClusters getFileHash (snd entry) of
        Inl e \<Rightarrow> []
      | Inr cs \<Rightarrow> if cs = [] then [] else [(fst entry, clustersDecision cs)])"

definition reportOf ::
  "(string \<Rightarrow> string option) \<Rightarrow> (string \<times> string obj) list \<Rightarrow> (string \<times> hdecision) list" where
  "reportOf getFileHash es = concat (map (iconDecisions getFileHash) es)"

definition removedStyles :: "(string \<times> hdecision) list \<Rightarrow> string list" where
  "removedStyles report = concat (map (\<lambda>p. hremove (snd p)) report)"

text \<open>The styles of an icon whose file has digest \<open>h\<close>, in the order of its Group entry.\<close>

definition stylesWithHash ::
  "(string \<Rightarrow> string option) \<Rightarrow> string obj \<Rightarrow> string \<Rightarrow> string list" where
  "stylesWithHash getFileHash variants h =
     map fst (filter (\<lambda>p. getFileHash (snd p) = Some h) variants)"

text \<open>The tallies printed at the end: \<open>removedPerStyle[style]\<close> for each of \<open>STYLES\<close>.\<close>

definition printedTallies :: "jsnum obj \<Rightarrow> jsnum list" where
  "printedTallies t = map (tallyGet t) STYLES"

subsection \<open>The report as written by \<open>JSON.stringify\<close>\<close>

datatype json = JNull | JStr string | JArr "json list" | JObj "(string \<times> json) list"

definition keepJson :: "string option \<Rightarrow> json" where
  "keepJson k = (case k of None \<Rightarrow> JNull | Some s \<Rightarrow> JStr s)"

definition hdecisionJson :: "hdecision \<Rightarrow> json" where
  "hdecisionJson e = JObj [(''keep'', JArr (map keepJson (hkeep e))),
                           (''remove'', JArr (map JStr (hremove e)))]"

definition hreportJson :: "hdecision obj \<Rightarrow> json" where
  "hreportJson report = JObj (map (\<lambda>p. (fst p, hdecisionJson (snd p))) (objectEntries report))"

definition jsonGet :: "json \<Rightarrow> string \<Rightarrow> json option" where
  "jsonGet j k = (case j of JObj kvs \<Rightarrow> map_of kvs k | _ \<Rightarrow> None)"

definition reportEntryJson :: "error + hstate \<Rightarrow> string \<Rightarrow> json option" where
  "reportEntryJson r iconName =
     (case r of Inl e \<Rightarrow> None | Inr out \<Rightarrow> jsonGet (hreportJson (hreport out)) iconName)"

text \<open>
  The shape that the specification words for an icon with several clusters: an array
  with one Decision object per cluster.
\<close>

definition specArrayOfDecisions :: "string list list \<Rightarrow> json" where
  "specArrayOfDecisions cs =
     JArr (map (\<lambda>c. JObj [(''keep'', JArr [keepJson (clusterKeep c)]),
                          (''remove'', JArr (map JStr (clusterRemove c)))]) cs)"

section \<open>The visual deduplicator\<close>

text \<open>
  \<open>renderSvgToPng\<close> and \<open>visuallyCompare\<close> call external libraries; they are
  parameters: \<open>render svg png\<close> is \<open>False\<close> where rendering throws, and
  \<open>compare a b\<close> is \<open>None\<close> where the comparison throws, else the oracle's answer.
  \<open>visualDuplicates\<close> is a Map from a style to a Set of styles; both keep insertion
  order.
\<close>

record vdecision =
  vkeep :: "string option"
  vremove :: "string list"

record vstate =
  vreport :: "vdecision obj"
  vtotalIcons :: nat
  iconsWithDuplicates :: nat
  totalFilesToRemove :: nat
  removalByStyle :: "jsnum obj"

definition pngPathOf :: "string \<Rightarrow> string \<Rightarrow> string \<Rightarrow> string" where
  "pngPathOf tempDir iconName style = pathJoin tempDir (iconName @ ''_'' @ style @ ''.png'')"

fun renderAll ::
  "(string \<Rightarrow> string \<Rightarrow> bool) \<Rightarrow> string \<Rightarrow> string \<Rightarrow> (string \<times> string) list \<Rightarrow> string obj
     \<Rightarrow> error + string obj" where
  "renderAll render tempDir iconName [] pngPaths = Inr pngPaths"
| "renderAll render tempDir iconName ((style, svgPath) # rest) pngPaths =
     (if render svgPath (pngPathOf tempDir iconName style)
      then renderAll render tempDir iconName rest
             (objSet style (pngPathOf tempDir iconName style) pngPaths)
      else Inl RenderFailed)"

definition setAdd :: "string list \<Rightarrow> string \<Rightarrow> string list" where
  "setAdd s x = (if x \<in> set s then s else s @ [x])"

definition setOf :: "(string list) obj \<Rightarrow> string \<Rightarrow> string list" where
  "setOf vd k = (case map_of vd k of None \<Rightarrow> [] | Some s \<Rightarrow> s)"

text \<open>The body of \<open>if (equal)\<close>: two \<open>has\<close>/\<open>set\<close> and two \<open>get\<close>/\<open>add\<close>.\<close>

definition recordPair :: "string \<Rightarrow> string \<Rightarrow> (string list) obj \<Rightarrow> (string list) obj" where
  "recordPair styleA styleB vd =
     (let vd1 = (if map_of vd styleA = None then objSet styleA [] vd else vd);
          vd2 = (if map_of vd1 styleB = None then objSet styleB [] vd1 else vd1);
          vd3 = objSet styleA (setAdd (setOf vd2 styleA) styleB) vd2
      in objSet styleB (setAdd (setOf vd3 styleB) styleA) vd3)"

fun compareWith ::
  "(string \<Rightarrow> string \<Rightarrow> bool option) \<Rightarrow> string obj \<Rightarrow> string \<Rightarrow> string list \<Rightarrow> (string list) obj
     \<Rightarrow> error + (string list) obj" where
  "compareWith compare pngPaths styleA [] vd = Inr vd"
| "compareWith compare pngPaths styleA (styleB # rest) vd =
     (case (map_of pngPaths styleA, map_of pngPaths styleB) of
        (Some pa, Some pb) \<Rightarrow>
          (case compare pa pb of
             None \<Rightarrow> Inl CompareFailed
           | Some equal \<Rightarrow>
               compareWith compare pngPaths styleA rest
                 (if equal then recordPair styleA styleB vd else vd))
      | _ \<Rightarrow> Inl CompareFailed)"

fun comparePairs ::
  "(string \<Rightarrow> string \<Rightarrow> bool option) \<Rightarrow> string obj \<Rightarrow> string list \<Rightarrow> (string list) obj
     \<Rightarrow> error + (string list) obj" where
  "comparePairs compare pngPaths [] vd = Inr vd"
| "comparePairs compare pngPaths (styleA # rest) vd =
     (case compareWith compare pngPaths styleA rest vd of
        Inl e \<Rightarrow> Inl e
      | Inr vd' \<Rightarrow> comparePairs compare pngPaths rest vd')"

definition allInvolved :: "(string list) obj \<Rightarrow> string list" where
  "allInvolved vd = foldl setAdd (foldl setAdd [] (map fst vd)) (concat (map snd vd))"

text \<open>\<open>remove.forEach\<close>: only a style that \<open>removalByStyle\<close> knows is counted.\<close>

fun tallyRemovals :: "string list \<Rightarrow> jsnum obj \<times> nat \<Rightarrow> jsnum obj \<times> nat" where
  "tallyRemovals [] acc = acc"
| "tallyRemovals (style # rest) (tally, n) =
     (if map_of tally style \<noteq> None
      then tallyRemovals rest (bumpStyle style tally, Suc n)
      else tallyRemovals rest (tally, n))"

text \<open>The involved styles of one icon, or nothing to compare, or the exception.\<close>

definition iconInvolved ::
  "(string \<Rightarrow> string \<Rightarrow> bool) \<Rightarrow> (string \<Rightarrow> string \<Rightarrow> bool option) \<Rightarrow> string
     \<Rightarrow> string \<times> string obj \<Rightarrow> error + string list" where
  "iconInvolved render compare tempDir entry =
     (let styleEntries = objectEntries (snd entry) in
      if length styleEntries < 2 then Inr []
      else
        case renderAll render tempDir (fst entry) styleEntries [] of
          Inl e \<Rightarrow> Inl e
        | Inr pngPaths \<Rightarrow>
            (case comparePairs compare pngPaths (map fst styleEntries) [] of
               Inl e \<Rightarrow> Inl e
             | Inr visualDuplicates \<Rightarrow>
                 if length visualDuplicates > 0 then Inr (allInvolved visualDuplicates)
                 else Inr []))"

definition processVisualIcon ::
  "(string \<Rightarrow> string \<Rightarrow> bool) \<Rightarrow> (string \<Rightarrow> string \<Rightarrow> bool option) \<Rightarrow> string
     \<Rightarrow> vstate \<Rightarrow> string \<times> string obj \<Rightarrow> error + vstate" where
  "processVisualIcon render compare tempDir st entry =
     (let st1 = st\<lparr>vtotalIcons := vtotalIcons st + 1\<rparr>;
          styleEntries = objectEntries (snd entry) in
      if length styleEntries < 2 then Inr st1
      else
        case renderAll render tempDir (fst entry) styleEntries [] of
          Inl e \<Rightarrow> Inl e
        | Inr pngPaths \<Rightarrow>
            (case comparePairs compare pngPaths (map fst styleEntries) [] of
               Inl e \<Rightarrow> Inl e
             | Inr visualDuplicates \<Rightarrow>
                 if length visualDuplicates > 0
                 then
                   (case resolveCluster (allInvolved visualDuplicates) of
                      (keep, remove) \<Rightarrow>
                        (case tallyRemovals remove (removalByStyle st1, totalFilesToRemove st1) of
                           (tally, n) \<Rightarrow>
                             Inr (st1\<lparr>vreport :=
                                        objSet (fst entry) \<lparr>vkeep = keep, vremove = remove\<rparr>
                                          (vreport st1),
                                      iconsWithDuplicates := iconsWithDuplicates st1 + 1,
                                      totalFilesToRemove := n,
                                      removalByStyle := tally\<rparr>)))
                 else Inr st1))"

fun processVisualEntries ::
  "(string \<Rightarrow> string \<Rightarrow> bool) \<Rightarrow> (string \<Rightarrow> string \<Rightarrow> bool option) \<Rightarrow> string
     \<Rightarrow> (string \<times> string obj) list \<Rightarrow> vstate \<Rightarrow> error + vstate" where
  "processVisualEntries render compare tempDir [] st = Inr st"
| "processVisualEntries render compare tempDir (entry # rest) st =
     (case processVisualIcon render compare tempDir st entry of
        Inl e \<Rightarrow> Inl e
      | Inr st' \<Rightarrow> processVisualEntries render compare tempDir rest st')"

definition vInit :: vstate where
  "vInit = \<lparr>vreport = [], vtotalIcons = 0, iconsWithDuplicates = 0, totalFilesToRemove = 0,
            removalByStyle = [(''outlined'', Num 0), (''filled'', Num 0), (''sharp'', Num 0),
                              (''round'', Num 0)]\<rparr>"

definition processVisualDeduplication ::
  "(string \<Rightarrow> dirent) \<Rightarrow> string \<Rightarrow> string \<Rightarrow> (string \<Rightarrow> string \<Rightarrow> bool)
     \<Rightarrow> (string \<Rightarrow> string \<Rightarrow> bool option) \<Rightarrow> error + vstate" where
  "processVisualDeduplication fs iconDir tempDir render compare =
     (case groupIconsByName fs iconDir of
        Inl e \<Rightarrow> Inl e
      | Inr iconGroups \<Rightarrow>
          processVisualEntries render compare tempDir (objectEntries iconGroups) vInit)"

text \<open>
  For the statements below. The pairs that the two nested loops visit, the pairs that the
  oracle judges equal, and the styles that such a pair touches: the involved set.
\<close>

fun pairsOf :: "string list \<Rightarrow> (string \<times> string) list" where
  "pairsOf [] = []"
| "pairsOf (x # xs) = map (Pair x) xs @ pairsOf xs"

definition judgedEqual ::
  "(string \<Rightarrow> string \<Rightarrow> bool option) \<Rightarrow> string \<Rightarrow> string \<Rightarrow> string \<times> string \<Rightarrow> bool" where
  "judgedEqual compare tempDir iconName pair =
     (compare (pngPathOf tempDir iconName (fst pair)) (pngPathOf tempDir iconName (snd pair))
        = Some True)"

definition endsOf :: "(string \<times> string) list \<Rightarrow> string list" where
  "endsOf pairs = concat (map (\<lambda>pair. [fst pair, snd pair]) pairs)"

definition involvedStyles ::
  "(string \<Rightarrow> string \<Rightarrow> bool option) \<Rightarrow> string \<Rightarrow> string \<Rightarrow> string list \<Rightarrow> string list" where
  "involvedStyles compare tempDir iconName styles =
     endsOf (filter (judgedEqual compare tempDir iconName) (pairsOf styles))"

definition touched :: "(string list) obj \<Rightarrow> string set" where
  "touched vd = set (map fst vd) \<union> set (concat (map snd vd))"

definition clusterDecision :: "string list \<Rightarrow> vdecision" where
  "clusterDecision cluster = \<lparr>vkeep = clusterKeep cluster, vremove = clusterRemove cluster\<rparr>"

definition visualDecisions ::
  "(string \<Rightarrow> string \<Rightarrow> bool) \<Rightarrow> (string \<Rightarrow> string \<Rightarrow> bool option) \<Rightarrow> string
     \<Rightarrow> string \<times> string obj \<Rightarrow> (string \<times> vdecision) list" where
  "visualDecisions render compare tempDir entry =
     (case iconInvolved render compare tempDir entry of
        Inl e \<Rightarrow> []
      | Inr cluster \<Rightarrow> if cluster = [] then [] else [(fst entry, clusterDecision cluster)])"

definition vreportOf ::
  "(string \<Rightarrow> string \<Rightarrow> bool) \<Rightarrow> (string \<Rightarrow> string \<Rightarrow> bool option) \<Rightarrow> string
     \<Rightarrow> (string \<times> string obj) list \<Rightarrow> (string \<times> vdecision) list" where
  "vreportOf render compare tempDir es = concat (map (visualDecisions render compare tempDir) es)"

definition vremovedStyles :: "(string \<times> vdecision) list \<Rightarrow> string list" where
  "vremovedStyles report = concat (map (\<lambda>p. vremove (snd p)) report)"

text \<open>The tallies printed at the end: the values of \<open>Object.entries(removalByStyle)\<close>.\<close>

definition printedVisualTallies :: "jsnum obj \<Rightarrow> jsnum list" where
  "printedVisualTallies t = map snd (objectEntries t)"

section \<open>The two deleters\<close>

text \<open>
  What \<open>fs.existsSync\<close>, \<open>fs.readFileSync\<close> and \<open>fs.unlinkSync\<close> see at a path:
  nothing, a file with its content, or a directory (reading and unlinking it throw).
  \<open>JSON.parse\<close> is a parameter that gives the parsed report, or \<open>None\<close> where it (or
  the shape of the document) makes the deleter throw. Of a group object only its
  \<open>remove\<close> array is read, so a group is that list of styles.
\<close>

datatype node = File string | Directory

type_synonym filesystem = "string \<Rightarrow> node option"

datatype message = ReportNotFound string | FileDeleted string | TotalDeleted nat

record dstate =
  dfs :: filesystem
  totalDeleted :: nat
  dlog :: "message list"
  thrown :: "error option"

definition targetPath :: "string \<Rightarrow> string \<Rightarrow> string \<Rightarrow> string" where
  "targetPath iconDir style iconName = pathJoin (pathJoin iconDir style) (iconName @ ''.svg'')"

text \<open>The body of \<open>for (const style of remove)\<close>, the same in both deleters.\<close>

definition deleteStyle :: "string \<Rightarrow> string \<Rightarrow> string \<Rightarrow> dstate \<Rightarrow> dstate" where
  "deleteStyle iconDir iconName style st =
     (let filePath = targetPath iconDir style iconName in
      case dfs st filePath of
        None \<Rightarrow> st
      | Some (File content) \<Rightarrow>
          st\<lparr>dfs := (dfs st)(filePath := None),
             totalDeleted := totalDeleted st + 1,
             dlog := dlog st @ [FileDeleted filePath]\<rparr>
      | Some Directory \<Rightarrow> st\<lparr>thrown := Some UnlinkFailed\<rparr>)"

text \<open>Every loop stops at the first exception.\<close>

fun deleteStyles :: "string \<Rightarrow> string \<Rightarrow> string list \<Rightarrow> dstate \<Rightarrow> dstate" where
  "deleteStyles iconDir iconName [] st = st"
| "deleteStyles iconDir iconName (style # rest) st =
     (if thrown st \<noteq> None then st
      else deleteStyles iconDir iconName rest (deleteStyle iconDir iconName style st))"

datatype hentry = Single "string list" | Many "string list list"

fun deleteGroups :: "string \<Rightarrow> string \<Rightarrow> string list list \<Rightarrow> dstate \<Rightarrow> dstate" where
  "deleteGroups iconDir iconName [] st = st"
| "deleteGroups iconDir iconName (remove # rest) st =
     (if thrown st \<noteq> None then st
      else deleteGroups iconDir iconName rest (deleteStyles iconDir iconName remove st))"

text \<open>\<open>const groups = Array.isArray(entry) ? entry : [entry];\<close>\<close>

definition groupsOf :: "hentry \<Rightarrow> string list list" where
  "groupsOf entry = (case entry of Many gs \<Rightarrow> gs | Single g \<Rightarrow> [g])"

fun deleteHashEntries :: "string \<Rightarrow> (string \<times> hentry) list \<Rightarrow> dstate \<Rightarrow> dstate" where
  "deleteHashEntries iconDir [] st = st"
| "deleteHashEntries iconDir ((iconName, entry) # rest) st =
     (if thrown st \<noteq> None then st
      else deleteHashEntries iconDir rest (deleteGroups iconDir iconName (groupsOf entry) st))"

fun deleteVisualEntries :: "string \<Rightarrow> (string \<times> string list) list \<Rightarrow> dstate \<Rightarrow> dstate" where
  "deleteVisualEntries iconDir [] st = st"
| "deleteVisualEntries iconDir ((iconName, remove) # rest) st =
     (if thrown st \<noteq> None then st
      else deleteVisualEntries iconDir rest (deleteStyles iconDir iconName remove st))"

definition dInit :: "filesystem \<Rightarrow> dstate" where
  "dInit fs = \<lparr>dfs = fs, totalDeleted = 0, dlog = [], thrown = None\<rparr>"

definition finish :: "dstate \<Rightarrow> dstate" where
  "finish st =
     (if thrown st \<noteq> None then st else st\<lparr>dlog := dlog st @ [TotalDeleted (totalDeleted st)]\<rparr>)"

definition deleteFilesByHashReport ::
  "(string \<Rightarrow> hentry obj option) \<Rightarrow> string \<Rightarrow> filesystem \<Rightarrow> string \<Rightarrow> dstate" where
  "deleteFilesByHashReport parse iconDir fs reportPath =
     (case fs reportPath of
        None \<Rightarrow> (dInit fs)\<lparr>dlog := [ReportNotFound reportPath]\<rparr>
      | Some Directory \<Rightarrow> (dInit fs)\<lparr>thrown := Some ReadFileFailed\<rparr>
      | Some (File content) \<Rightarrow>
          (case parse content of
             None \<Rightarrow> (dInit fs)\<lparr>thrown := Some ParseFailed\<rparr>
           | Some report \<Rightarrow> finish (deleteHashEntries iconDir (objectEntries report) (dInit fs))))"

definition deleteFilesByVisualReport ::
  "(string \<Rightarrow> (string list) obj option) \<Rightarrow> string \<Rightarrow> filesystem \<Rightarrow> string \<Rightarrow> dstate" where
  "deleteFilesByVisualReport parse iconDir fs reportPath =
     (case fs reportPath of
        None \<Rightarrow> (dInit fs)\<lparr>dlog := [ReportNotFound reportPath]\<rparr>
      | Some Directory \<Rightarrow> (dInit fs)\<lparr>thrown := Some ReadFileFailed\<rparr>
      | Some (File content) \<Rightarrow>
          (case parse content of
             None \<Rightarrow> (dInit fs)\<lparr>thrown := Some ParseFailed\<rparr>
           | Some report \<Rightarrow> finish (deleteVisualEntries iconDir (objectEntries report) (dInit fs))))"

text \<open>For the statements below: a list of paths deleted one after the other.\<close>

definition deletePath :: "string \<Rightarrow> dstate \<Rightarrow> dstate" where
  "deletePath filePath st =
     (case dfs st filePath of
        None \<Rightarrow> st
      | Some (File content) \<Rightarrow>
          st\<lparr>dfs := (dfs st)(filePath := None),
             totalDeleted := totalDeleted st + 1,
             dlog := dlog st @ [FileDeleted filePath]\<rparr>
      | Some Directory \<Rightarrow> st\<lparr>thrown := Some UnlinkFailed\<rparr>)"

fun deletePaths :: "string list \<Rightarrow> dstate \<Rightarrow> dstate" where
  "deletePaths [] st = st"
| "deletePaths (p # ps) st = (if thrown st \<noteq> None then st else deletePaths ps (deletePath p st))"

definition hashTargets :: "string \<Rightarrow> (string \<times> hentry) list \<Rightarrow> string list" where
  "hashTargets iconDir report =
     concat (map (\<lambda>e. map (\<lambda>style. targetPath iconDir style (fst e)) (concat (groupsOf (snd e))))
               report)"

definition visualTargets :: "string \<Rightarrow> (string \<times> string list) list \<Rightarrow> string list" where
  "visualTargets iconDir report =
     concat (map (\<lambda>e. map (\<lambda>style. targetPath iconDir style (fst e)) (snd e)) report)"

section \<open>The design-tool marker\<close>

text \<open>
  Strings are byte lists here, so the warning sign with its variation selector, U+26A0
  U+FE0F, is the six bytes of its UTF-8 form. \<open>String.prototype.toLowerCase\<close> is a
  parameter. A report entry is read for its \<open>remove\<close> array only, which may be missing.
  A node of the design tool has a name and a type; \<open>writable\<close> says whether assigning
  its strokes succeeds, and \<open>redStroke\<close> whether the red frame has been set.
\<close>

definition warnMark :: string where
  "warnMark = [CHR 0xE2, CHR 0x9A, CHR 0xA0, CHR 0xEF, CHR 0xB8, CHR 0x8F]"

fun strIncludes :: "string \<Rightarrow> string \<Rightarrow> bool" where
  "strIncludes [] sub = (sub = [])"
| "strIncludes (c # cs) sub = (take (length sub) (c # cs) = sub \<or> strIncludes cs sub)"

text \<open>\<open>.replace(/.../g, "")\<close> for a literal pattern that is not empty.\<close>

function removeSub :: "string \<Rightarrow> string \<Rightarrow> string" where
  "removeSub sub [] = []"
| "removeSub sub (c # cs) =
     (if sub \<noteq> [] \<and> take (length sub) (c # cs) = sub
      then removeSub sub (drop (length sub) (c # cs))
      else c # removeSub sub cs)"
  by pat_completeness auto
termination
  by (relation "measure (\<lambda>p. length (snd p))") auto

definition isLowerAlnum :: "char \<Rightarrow> bool" where
  "isLowerAlnum c = ((CHR ''a'' \<le> c \<and> c \<le> CHR ''z'') \<or> (CHR ''0'' \<le> c \<and> c \<le> CHR ''9''))"

definition isSpace :: "char \<Rightarrow> bool" where
  "isSpace c = (c = CHR '' '' \<or> (CHR 0x09 \<le> c \<and> c \<le> CHR 0x0D))"

definition trim :: "string \<Rightarrow> string" where
  "trim s = rev (dropWhile isSpace (rev (dropWhile isSpace s)))"

definition normalizeName :: "(string \<Rightarrow> string) \<Rightarrow> string \<Rightarrow> string" where
  "normalizeName toLowerCase name =
     trim (filter (\<lambda>c. isLowerAlnum c \<or> c = CHR ''_'') (removeSub warnMark (toLowerCase name)))"

text \<open>
  The regular expression \<open>/Style=(.+)/\<close>: the leftmost \<open>Style=\<close> that is followed by a
  character other than a line terminator; the group runs to the next line terminator
  (LF, CR, U+2028, U+2029) or to the end.
\<close>

definition lineTerminatorAt :: "string \<Rightarrow> bool" where
  "lineTerminatorAt s =
     (take 1 s = [CHR 0x0A] \<or> take 1 s = [CHR 0x0D]
      \<or> take 3 s = [CHR 0xE2, CHR 0x80, CHR 0xA8] \<or> take 3 s = [CHR 0xE2, CHR 0x80, CHR 0xA9])"

fun dotPlus :: "string \<Rightarrow> string" where
  "dotPlus [] = []"
| "dotPlus (c # cs) = (if lineTerminatorAt (c # cs) then [] else c # dotPlus cs)"

fun matchStyle :: "string \<Rightarrow> string option" where
  "matchStyle [] = None"
| "matchStyle (c # cs) =
     (if take 6 (c # cs) = ''Style='' \<and> dotPlus (drop 6 (c # cs)) \<noteq> []
      then Some (dotPlus (drop 6 (c # cs)))
      else matchStyle cs)"

definition extractStyleFromVariantName :: "(string \<Rightarrow> string) \<Rightarrow> string \<Rightarrow> string" where
  "extractStyleFromVariantName toLowerCase variantName =
     (case matchStyle variantName of
        Some m \<Rightarrow> filter isLowerAlnum (toLowerCase m)
      | None \<Rightarrow> filter isLowerAlnum (toLowerCase variantName))"

record fnode =
  nodeName :: string
  nodeType :: string
  writable :: bool
  redStroke :: bool

text \<open>The new node, and what the function returns.\<close>

definition markVariantForDeletion :: "fnode \<Rightarrow> fnode \<times> bool" where
  "markVariantForDeletion variant =
     (let v1 = (if \<not> strIncludes (nodeName variant) warnMark
                then variant\<lparr>nodeName := nodeName variant @ '' '' @ warnMark\<rparr>
                else variant)
      in if writable v1 then (v1\<lparr>redStroke := True\<rparr>, True) else (v1, False))"

datatype reason = TwoToneStyle | ListedInReport

type_synonym mreport = "(string list option) obj"

text \<open>\<open>shouldMark\<close> and \<open>reason\<close>: \<open>None\<close> is \<open>shouldMark = false\<close>.\<close>

definition shouldMark ::
  "(string \<Rightarrow> string) \<Rightarrow> mreport \<Rightarrow> string \<Rightarrow> string \<Rightarrow> reason option" where
  "shouldMark toLowerCase report iconName styleName =
     (if styleName = ''twotone'' then Some TwoToneStyle
      else
        case map_of report iconName of
          None \<Rightarrow> None
        | Some entry \<Rightarrow>
            let remove = map toLowerCase (case entry of None \<Rightarrow> [] | Some r \<Rightarrow> r)
            in if styleName \<in> set remove then Some ListedInReport else None)"

definition processVariant ::
  "(string \<Rightarrow> string) \<Rightarrow> mreport \<Rightarrow> string \<Rightarrow> fnode \<Rightarrow> fnode \<times> bool" where
  "processVariant toLowerCase report iconName variant =
     (case shouldMark toLowerCase report iconName
             (extractStyleFromVariantName toLowerCase (nodeName variant)) of
        Some reason \<Rightarrow> markVariantForDeletion variant
      | None \<Rightarrow> (variant, False))"

text \<open>The loop over the children of a set that are components, in place.\<close>

fun processChildren ::
  "(string \<Rightarrow> string) \<Rightarrow> mreport \<Rightarrow> string \<Rightarrow> fnode list \<Rightarrow> nat \<Rightarrow> fnode list \<times> nat" where
  "processChildren toLowerCase report iconName [] markedCount = ([], markedCount)"
| "processChildren toLowerCase report iconName (child # rest) markedCount =
     (if nodeType child = ''COMPONENT''
      then
        (case processVariant toLowerCase report iconName child of
           (child', counted) \<Rightarrow>
             (case processChildren toLowerCase report iconName rest
                     (if counted then markedCount + 1 else markedCount) of
                (rest', n) \<Rightarrow> (child' # rest', n)))
      else
        (case processChildren toLowerCase report iconName rest markedCount of
           (rest', n) \<Rightarrow> (child # rest', n)))"

record componentSet =
  setName :: string
  children :: "fnode list"

fun processSets ::
  "(string \<Rightarrow> string) \<Rightarrow> mreport \<Rightarrow> componentSet list \<Rightarrow> nat \<Rightarrow> componentSet list \<times> nat" where
  "processSets toLowerCase report [] markedCount = ([], markedCount)"
| "processSets toLowerCase report (cset # rest) markedCount =
     (case processChildren toLowerCase report (normalizeName toLowerCase (setName cset))
             (children cset) markedCount of
        (children', n) \<Rightarrow>
          (case processSets toLowerCase report rest n of
             (rest', n') \<Rightarrow> (cset\<lparr>children := children'\<rparr> # rest', n')))"

record message_in =
  msgType :: string
  msgContent :: string

text \<open>
  The handler: the component sets of the page afterwards and the count that
  \<open>closePlugin\<close> shows, or the exception of \<open>JSON.parse\<close>; another message type does
  nothing.
\<close>

definition onmessage ::
  "(string \<Rightarrow> string) \<Rightarrow> (string \<Rightarrow> mreport option) \<Rightarrow> message_in \<Rightarrow> componentSet list
     \<Rightarrow> error + componentSet list \<times> nat option" where
  "onmessage toLowerCase parse msg componentSets =
     (if msgType msg = ''load-json''
      then
        (case parse (msgContent msg) of
           None \<Rightarrow> Inl ParseFailed
         | Some report \<Rightarrow>
             (case processSets toLowerCase report componentSets 0 of
                (sets', markedCount) \<Rightarrow> Inr (sets', Some markedCount)))
      else Inr (componentSets, None))"

text \<open>For the statements: a two-tone variant, and the outcome required for it.\<close>

definition twoToneVariant :: "(string \<Rightarrow> string) \<Rightarrow> fnode \<Rightarrow> bool" where
  "twoToneVariant toLowerCase child =
     (nodeType child = ''COMPONENT''
      \<and> extractStyleFromVariantName toLowerCase (nodeName child) = ''twotone'')"

definition flaggedAs :: "(string \<Rightarrow> string) \<Rightarrow> fnode \<Rightarrow> fnode \<Rightarrow> bool" where
  "flaggedAs toLowerCase child child' =
     (if twoToneVariant toLowerCase child
      then child' = fst (markVariantForDeletion child) \<and> strIncludes (nodeName child') warnMark
           \<and> (writable child \<longrightarrow> redStroke child')
      else True)"

section \<open>How a report entry relates to the Group\<close>

text \<open>
  An entry of the exact report is the decision of the clusters of its icon, each of which
  satisfies \<open>P\<close>; an entry of the visual report is the decision of the involved styles
  of its icon, which satisfy \<open>P\<close>.
\<close>

definition hashEntryOk ::
  "(string obj \<Rightarrow> string list \<Rightarrow> bool) \<Rightarrow> groups \<Rightarrow> (string \<Rightarrow> string option)
     \<Rightarrow> string \<times> hdecision \<Rightarrow> bool" where
  "hashEntryOk P g getFileHash entry =
     (case map_of g (fst entry) of
        None \<Rightarrow> False
      | Some vs \<Rightarrow>
          (case iconClusters getFileHash vs of
             Inl e \<Rightarrow> False
           | Inr cs \<Rightarrow> snd entry = clustersDecision cs \<and> list_all (P vs) cs))"

definition visualEntryOk ::
  "(string \<Rightarrow> string obj \<Rightarrow> string list \<Rightarrow> bool) \<Rightarrow> groups \<Rightarrow> (string \<Rightarrow> string \<Rightarrow> bool)
     \<Rightarrow> (string \<Rightarrow> string \<Rightarrow> bool option) \<Rightarrow> string \<Rightarrow> string \<times> vdecision \<Rightarrow> bool" where
  "visualEntryOk P g render compare tempDir entry =
     (case map_of g (fst entry) of
        None \<Rightarrow> False
      | Some vs \<Rightarrow>
          (case iconInvolved render compare tempDir (fst entry, vs) of
             Inl e \<Rightarrow> False
           | Inr cl \<Rightarrow> snd entry = clusterDecision cl \<and> P (fst entry) vs cl))"

text \<open>
  The keep that the specification words: "outlined" if it is in the cluster, else the
  least style name of the cluster in the lexicographic order.
\<close>

definition specKeep :: "string list \<Rightarrow> string" where
  "specKeep c = (if ''outlined'' \<in> set c then ''outlined'' else Min (set c))"

definition selectionRule :: "string list \<Rightarrow> bool" where
  "selectionRule c =
     (length c \<ge> 2 \<and> clusterKeep c = Some (specKeep c)
      \<and> distinct (clusterRemove c) \<and> set (clusterRemove c) = set c - {specKeep c})"

text \<open>The keep is not in the remove list, and together they are the set \<open>S\<close>.\<close>

definition keepApart :: "string option \<Rightarrow> string list \<Rightarrow> string set \<Rightarrow> bool" where
  "keepApart keep remove S =
     (case keep of None \<Rightarrow> False | Some k \<Rightarrow> k \<notin> set remove \<and> insert k (set remove) = S)"

definition hashesOf :: "(string \<Rightarrow> string option) \<Rightarrow> string obj \<Rightarrow> string list" where
  "hashesOf getFileHash variants = List.map_filter (\<lambda>p. getFileHash (snd p)) variants"

text \<open>A cluster of the exact deduplicator: the styles of one digest, kept apart.\<close>

definition hashClusterApart ::
  "(string \<Rightarrow> string option) \<Rightarrow> string obj \<Rightarrow> string list \<Rightarrow> bool" where
  "hashClusterApart getFileHash vs c =
     (list_ex (\<lambda>h. c = stylesWithHash getFileHash vs h) (hashesOf getFileHash vs)
      \<and> keepApart (clusterKeep c) (clusterRemove c) (set c))"

definition visualClusterApart ::
  "(string \<Rightarrow> string \<Rightarrow> bool option) \<Rightarrow> string \<Rightarrow> string \<Rightarrow> string obj \<Rightarrow> string list \<Rightarrow> bool" where
  "visualClusterApart compare tempDir n vs cl =
     keepApart (clusterKeep cl) (clusterRemove cl)
       (set (involvedStyles compare tempDir n (map fst vs)))"

text \<open>No kept style of an entry of the exact report is in the remove list of that entry.\<close>

definition keepsNotRemoved :: "string \<times> hdecision \<Rightarrow> bool" where
  "keepsNotRemoved entry =
     list_all (\<lambda>k. k \<noteq> None \<and> k \<notin> set (map Some (hremove (snd entry)))) (hkeep (snd entry))"

text \<open>
  An icon of the Group in the exact report: its entry is the decision of its clusters, and
  it has no entry when it has no cluster; every cluster follows the selection rule; and
  every digest that two or more of its styles share gives one of the clusters.
\<close>

definition hashIconDecided ::
  "(string \<Rightarrow> string option) \<Rightarrow> hdecision obj \<Rightarrow> string \<times> string obj \<Rightarrow> bool" where
  "hashIconDecided getFileHash report icon =
     (case iconClusters getFileHash (snd icon) of
        Inl e \<Rightarrow> False
      | Inr cs \<Rightarrow>
          map_of report (fst icon) = (if cs = [] then None else Some (clustersDecision cs))
          \<and> list_all selectionRule cs
          \<and> list_all (\<lambda>h. length (stylesWithHash getFileHash (snd icon) h) < 2
                          \<or> stylesWithHash getFileHash (snd icon) h \<in> set cs)
                (hashesOf getFileHash (snd icon)))"

text \<open>
  An icon of the Group in the visual report: its entry is the decision of its involved
  styles, and it has no entry when no pair of its styles is judged equal; the involved
  styles are those that a pair judged equal touches, and they follow the selection rule.
\<close>

definition visualIconDecided ::
  "(string \<Rightarrow> string \<Rightarrow> bool) \<Rightarrow> (string \<Rightarrow> string \<Rightarrow> bool option) \<Rightarrow> string
     \<Rightarrow> vdecision obj \<Rightarrow> string \<times> string obj \<Rightarrow> bool" where
  "visualIconDecided render compare tempDir report icon =
     (case iconInvolved render compare tempDir icon of
        Inl e \<Rightarrow> False
      | Inr cl \<Rightarrow>
          map_of report (fst icon) = (if cl = [] then None else Some (clusterDecision cl))
          \<and> set cl = set (involvedStyles compare tempDir (fst icon) (map fst (snd icon)))
          \<and> (cl = [] \<or> selectionRule cl))"

section \<open>Invariants used in the proofs\<close>

definition variantsWf :: "string obj \<Rightarrow> bool" where
  "variantsWf vs = (distinct (map fst vs) \<and> set (map fst vs) \<subseteq> set STYLES)"

definition groupsWf :: "groups \<Rightarrow> bool" where
  "groupsWf g = (distinct (map fst g) \<and> list_all (\<lambda>p. variantsWf (snd p)) g)"

text \<open>The styles of an icon come in the order of the style directories scanned so far.\<close>

definition stylesInOrder :: "string list \<Rightarrow> string list \<Rightarrow> bool" where
  "stylesInOrder scanned ks = (ks = filter (\<lambda>s. s \<in> set ks) scanned)"

definition tallyOk :: "jsnum obj \<Rightarrow> nat \<Rightarrow> bool" where
  "tallyOk t n =
     (\<exists>a b c d. t = [(''outlined'', Num a), (''filled'', Num b), (''sharp'', Num c), (''round'', Num d)]
                \<and> a + b + c + d = n)"

section \<open>Example inputs\<close>

text \<open>
  A tree with icons \<open>a\<close>, \<open>b\<close>, \<open>c\<close>, \<open>d\<close> under \<open>/r\<close>, listed in two different
  orders, and a digest function: all four \<open>a\<close> files are equal, the two \<open>b\<close> files
  differ, \<open>c\<close> is equal in filled and round and differs in sharp, and \<open>d\<close> is equal in
  outlined and filled and, with another content, in sharp and round.
\<close>

definition exampleFs :: "string \<Rightarrow> dirent" where
  "exampleFs d =
     (if d = ''/r/outlined'' then Listing [''a.svg'', ''b.svg'', ''d.svg'']
      else if d = ''/r/filled'' then Listing [''b.svg'', ''readme.txt'', ''a.svg'', ''c.svg'', ''d.svg'']
      else if d = ''/r/sharp'' then Listing [''a.svg'', ''c.svg'', ''d.svg'']
      else if d = ''/r/round'' then Listing [''a.svg'', ''c.svg'', ''d.svg'']
      else Absent)"


definition exampleHash :: "string \<Rightarrow> string option" where
  "exampleHash p =
     (if p = ''/r/outlined/b.svg'' then Some ''h1''
      else if p = ''/r/filled/b.svg'' then Some ''h2''
      else if p = ''/r/sharp/c.svg'' then Some ''h3''
      else if p = ''/r/sharp/d.svg'' then Some ''h3''
      else if p = ''/r/round/d.svg'' then Some ''h3''
      else Some ''h0'')"

text \<open>
  An oracle that judges outlined/filled and filled/round equal and nothing else, for
  the PNGs of icon \<open>a\<close> under \<open>/t\<close>.
\<close>

definition exampleCompare :: "string \<Rightarrow> string \<Rightarrow> bool option" where
  "exampleCompare p q =
     Some ((p = ''/t/a_outlined.png'' \<and> q = ''/t/a_filled.png'')
           \<or> (p = ''/t/a_filled.png'' \<and> q = ''/t/a_round.png''))"

definition exampleRender :: "string \<Rightarrow> string \<Rightarrow> bool" where
  "exampleRender svg png = True"

definition exampleGroups :: groups where
  "exampleGroups =
     [(''a'', [(''outlined'', ''/r/outlined/a.svg''), (''filled'', ''/r/filled/a.svg''),
              (''sharp'', ''/r/sharp/a.svg''), (''round'', ''/r/round/a.svg'')]),
      (''b'', [(''outlined'', ''/r/outlined/b.svg''), (''filled'', ''/r/filled/b.svg'')]),
      (''d'', [(''outlined'', ''/r/outlined/d.svg''), (''filled'', ''/r/filled/d.svg''),
              (''sharp'', ''/r/sharp/d.svg''), (''round'', ''/r/round/d.svg'')]),
      (''c'', [(''filled'', ''/r/filled/c.svg''), (''sharp'', ''/r/sharp/c.svg''),
              (''round'', ''/r/round/c.svg'')])]"

definition exampleHashOut :: hstate where
  "exampleHashOut =
     \<lparr>hreport =
        [(''a'', \<lparr>hkeep = [Some ''outlined''], hremove = [''filled'', ''sharp'', ''round'']\<rparr>),
         (''d'', \<lparr>hkeep = [Some ''outlined'', Some ''round''], hremove = [''filled'', ''sharp'']\<rparr>),
         (''c'', \<lparr>hkeep = [Some ''filled''], hremove = [''round'']\<rparr>)],
      totalIcons = 4, totalIconsAffected = 3, totalFilesRemoved = 6,
      removedPerStyle =
        [(''outlined'', Num 0), (''filled'', Num 2), (''sharp'', Num 2), (''round'', Num 2)]\<rparr>"

definition exampleVisualOut :: vstate where
  "exampleVisualOut =
     \<lparr>vreport = [(''a'', \<lparr>vkeep = Some ''outlined'', vremove = [''filled'', ''round'']\<rparr>)],
      vtotalIcons = 4, iconsWithDuplicates = 1, totalFilesToRemove = 2,
      removalByStyle =
        [(''outlined'', Num 0), (''filled'', Num 1), (''sharp'', Num 0), (''round'', Num 1)]\<rparr>"

text \<open>
  A disk for the deleters: the four files of icon \<open>a\<close>, the two reports, and parsers
  that know the content of each report.
\<close>

definition exampleDisk :: filesystem where
  "exampleDisk p =
     (if p = ''/r/outlined/a.svg'' \<or> p = ''/r/filled/a.svg'' \<or> p = ''/r/round/a.svg''
      then Some (File ''<svg/>'')
      else if p = ''./dedup-report.json'' then Some (File ''H'')
      else if p = ''./visual-dedup-report.json'' then Some (File ''V'')
      else None)"

definition exampleParseHash :: "string \<Rightarrow> hentry obj option" where
  "exampleParseHash content =
     (if content = ''H'' then Some [(''a'', Single [''filled'', ''sharp'', ''round''])] else None)"

definition exampleParseVisual :: "string \<Rightarrow> (string list) obj option" where
  "exampleParseVisual content =
     (if content = ''V'' then Some [(''a'', [''filled'', ''sharp'', ''round''])] else None)"

text \<open>
  For the marker: lower-casing of ASCII letters, a page with one component set that has a
  two-tone and an outlined variant, and a parser that knows an empty report.
\<close>

definition asciiLower :: "string \<Rightarrow> string" where
  "asciiLower s =
     map (\<lambda>c. if CHR ''A'' \<le> c \<and> c \<le> CHR ''Z'' then char_of (of_char c + (32::nat)) else c) s"

definition examplePage :: "componentSet list" where
  "examplePage =
     [\<lparr>setName = ''Add_Circle'',
       children =
         [\<lparr>nodeName = ''Style=Two Tone'', nodeType = ''COMPONENT'', writable = True,
           redStroke = False\<rparr>,
          \<lparr>nodeName = ''Style=Outlined'', nodeType = ''COMPONENT'', writable = True,
           redStroke = False\<rparr>]\<rparr>]"

definition exampleParseReport :: "string \<Rightarrow> mreport option" where
  "exampleParseReport content = (if content = ''{}'' then Some [] else None)"

text \<open>
  A tree whose only style directory is \<open>/r/outlined\<close>, with the given listing, and a
  tree with icon \<open>a\<close> in outlined, filled and round only.
\<close>

definition outlinedOnlyFs :: "string list \<Rightarrow> string \<Rightarrow> dirent" where
  "outlinedOnlyFs files d = (if d = ''/r/outlined'' then Listing files else Absent)"

definition exampleFsThree :: "string \<Rightarrow> dirent" where
  "exampleFsThree d =
     (if d = ''/r/outlined'' \<or> d = ''/r/filled'' \<or> d = ''/r/round'' then Listing [''a.svg'']
      else Absent)"

definition exampleVisualOutThree :: vstate where
  "exampleVisualOutThree =
     \<lparr>vreport = [(''a'', \<lparr>vkeep = Some ''outlined'', vremove = [''filled'', ''round'']\<rparr>)],
      vtotalIcons = 1, iconsWithDuplicates = 1, totalFilesToRemove = 2,
      removalByStyle =
        [(''outlined'', Num 0), (''filled'', Num 1), (''sharp'', Num 0), (''round'', Num 1)]\<rparr>"

section \<open>Properties\<close>

subsection \<open>Objects\<close>

lemma map_of_objSet: "map_of (objSet k v ob) = (map_of ob)(k \<mapsto> v)"
  by (induction ob) (auto simp: fun_eq_iff)

lemma keys_objSet:
  "map fst (objSet k v ob) = (if k \<in> set (map fst ob) then map fst ob else map fst ob @ [k])"
  by (induction ob) auto

lemma distinct_objSet: "distinct (map fst ob) \<Longrightarrow> distinct (map fst (objSet k v ob))"
  by (simp add: keys_objSet)

lemma objSet_fresh: "k \<notin> set (map fst ob) \<Longrightarrow> objSet k v ob = ob @ [(k, v)]"
  by (induction ob) auto

lemma set_objSet: "set (objSet k v ob) \<subseteq> insert (k, v) (set ob)"
  by (induction ob) auto

subsection \<open>The grouper's result does not depend on the listing order\<close>


lemma basename_append: "basename (n @ e) e = n"
  by (simp add: basename_def endsWith_def)












text \<open>An icon named as a function of \<open>Object.prototype\<close> gets no entry.\<close>

lemma groupIconsByName_inherited_name:
  "groupIconsByName (outlinedOnlyFs [''constructor.svg'', ''add.svg'']) ''/r''
     = Inr [(''add'', [(''outlined'', ''/r/outlined/add.svg'')])]"
  by code_simp

subsection \<open>Keep and remove of one cluster\<close>

lemma sort_hd_Min: "sort c = k # rest \<Longrightarrow> k = Min (set c)"
proof -
  assume a: "sort c = k # rest"
  have s: "sorted (k # rest)" using a sorted_sort [of c] by simp
  have "set (sort c) = set c" by simp
  then have e: "set c = set (k # rest)" using a by simp
  have "Min (set (k # rest)) = k"
    by (rule Min_eqI) (use s in auto)
  with e show ?thesis by simp
qed

lemma clusterKeep_outlined: "''outlined'' \<in> set c \<Longrightarrow> clusterKeep c = Some ''outlined''"
  by (simp add: clusterKeep_def resolveCluster_def)

lemma sort_Nil_iff: "sort c = [] \<longleftrightarrow> c = []"
  by (metis length_sort length_0_conv)

lemma clusterKeep_min:
  "''outlined'' \<notin> set c \<Longrightarrow> c \<noteq> [] \<Longrightarrow> clusterKeep c = Some (Min (set c))"
  by (auto simp: clusterKeep_def resolveCluster_def Let_def sort_Nil_iff
      split: list.splits dest: sort_hd_Min)

lemma clusterKeep_empty: "clusterKeep [] = None"
  by (simp add: clusterKeep_def resolveCluster_def)

lemma clusterKeep_mem: "clusterKeep c = Some k \<Longrightarrow> k \<in> set c"
proof (cases "c = []")
  case True
  assume "clusterKeep c = Some k"
  with True show ?thesis by (simp add: clusterKeep_empty)
next
  case False
  assume a: "clusterKeep c = Some k"
  show ?thesis
  proof (cases "''outlined'' \<in> set c")
    case True
    with a show ?thesis by (simp add: clusterKeep_outlined)
  next
    case no: False
    from clusterKeep_min [OF no False] a have "k = Min (set c)" by simp
    with False show ?thesis by simp
  qed
qed

lemma clusterKeep_nonempty: "c \<noteq> [] \<Longrightarrow> \<exists>k. clusterKeep c = Some k"
  by (cases "''outlined'' \<in> set c") (simp_all add: clusterKeep_outlined clusterKeep_min)

lemma clusterRemove_filter:
  "clusterRemove c =
     filter (\<lambda>s. Some s \<noteq> clusterKeep c) (if ''outlined'' \<in> set c then c else sort c)"
  by (auto simp: clusterRemove_def clusterKeep_def resolveCluster_def Let_def)

lemma set_clusterRemove: "set (clusterRemove c) = {s \<in> set c. Some s \<noteq> clusterKeep c}"
  by (auto simp: clusterRemove_filter)

lemma length_clusterRemove:
  assumes "distinct c" "c \<noteq> []"
  shows "Suc (length (clusterRemove c)) = length c"
proof -
  obtain k where k: "clusterKeep c = Some k"
    using assms(2) clusterKeep_nonempty by blast
  then have kc: "k \<in> set c" by (rule clusterKeep_mem)
  have d: "distinct (clusterRemove c)"
    using assms(1) by (simp add: clusterRemove_filter)
  have "set (clusterRemove c) = set c - {k}"
    using k by (auto simp: set_clusterRemove)
  then have "card (set (clusterRemove c)) = card (set c) - 1"
    using kc by simp
  moreover have "card (set c) > 0" using kc by (auto simp: card_gt_0_iff)
  ultimately have "Suc (card (set (clusterRemove c))) = card (set c)" by simp
  then show ?thesis
    using d assms(1) by (simp add: distinct_card)
qed

subsection \<open>Enumeration order of own properties\<close>

lemma set_objectEntries: "set (objectEntries ob) = set ob"
  by (auto simp: objectEntries_def)

lemma distinct_objectEntries:
  assumes "distinct (map fst ob)"
  shows "distinct (map fst (objectEntries ob))"
proof -
  from assms have d: "distinct ob" and i: "inj_on fst (set ob)"
    by (simp_all add: distinct_map)
  have "distinct (objectEntries ob)"
    using d by (auto simp: objectEntries_def)
  moreover have "inj_on fst (set (objectEntries ob))"
    using i by (simp add: set_objectEntries)
  ultimately show ?thesis by (simp add: distinct_map)
qed

lemma length_objectEntries: "length (objectEntries ob) = length ob"
  by (simp add: objectEntries_def sum_length_filter_compl)

lemma isArrayIndex_digit: "isArrayIndex s \<Longrightarrow> isDigit (hd s)"
  by (auto simp: isArrayIndex_def split: list.splits)

lemma styles_not_index: "s \<in> set STYLES \<Longrightarrow> \<not> isArrayIndex s"
  by (auto simp: STYLES_def isArrayIndex_def isDigit_def)

lemma objectEntries_styles:
  "set (map fst ob) \<subseteq> set STYLES \<Longrightarrow> objectEntries ob = ob"
proof -
  assume a: "set (map fst ob) \<subseteq> set STYLES"
  then have "\<not> isArrayIndex (fst p)" if "p \<in> set ob" for p
    using that styles_not_index by auto
  then have "filter (\<lambda>p. isArrayIndex (fst p)) ob = []"
    and "filter (\<lambda>p. \<not> isArrayIndex (fst p)) ob = ob"
    by (simp_all add: filter_empty_conv filter_id_conv)
  then show ?thesis by (simp add: objectEntries_def)
qed

subsection \<open>Digests and clusters of one icon\<close>

lemma computeHashes_keys:
  "computeHashes gh es acc = Inr hs \<Longrightarrow> set (map fst hs) = set (map fst acc) \<union> set (map fst es)"
proof (induction gh es acc rule: computeHashes.induct)
  case (1 gh hashes)
  then show ?case by simp
next
  case (2 gh style filePath rest hashes)
  then show ?case
    by (auto simp: keys_objSet split: option.splits if_splits)
qed

lemma computeHashes_distinct:
  "computeHashes gh es acc = Inr hs \<Longrightarrow> distinct (map fst acc) \<Longrightarrow> distinct (map fst hs)"
proof (induction gh es acc rule: computeHashes.induct)
  case (1 gh hashes)
  then show ?case by simp
next
  case (2 gh style filePath rest hashes)
  then show ?case
    by (auto simp: distinct_objSet split: option.splits)
qed

text \<open>The styles of one digest, in their order in \<open>hashes\<close>.\<close>

lemma map_of_buildHashMap:
  "map_of (buildHashMap hs hm) h =
     (let new = map fst (filter (\<lambda>p. snd p = h) hs) in
      case map_of hm h of
        None \<Rightarrow> if new = [] then None else Some new
      | Some g \<Rightarrow> Some (g @ new))"
proof (induction hs hm rule: buildHashMap.induct)
  case (1 hashMap)
  show ?case by (simp split: option.splits)
next
  case (2 style hash rest hashMap)
  show ?case
    by (simp add: "2.IH" map_of_objSet Let_def split: option.splits)
qed

lemma distinct_buildHashMap:
  "distinct (map fst hm) \<Longrightarrow> distinct (map fst (buildHashMap hs hm))"
  by (induction hs hm rule: buildHashMap.induct) (simp_all add: distinct_objSet)

lemma duplicateClusters_sound:
  assumes "c \<in> set (duplicateClusters (buildHashMap hs []))"
  shows "length c > 1 \<and> (\<exists>h. c = map fst (filter (\<lambda>p. snd p = h) hs))"
proof -
  from assms obtain h where h: "(h, c) \<in> set (buildHashMap hs [])" and l: "length c > 1"
    by (auto simp: duplicateClusters_def set_objectEntries)
  have "distinct (map fst (buildHashMap hs []))"
    by (rule distinct_buildHashMap) simp
  with h have "map_of (buildHashMap hs []) h = Some c" by simp
  then have "c = map fst (filter (\<lambda>p. snd p = h) hs)"
    by (simp add: map_of_buildHashMap Let_def split: if_splits)
  with l show ?thesis by blast
qed

lemma processClusters_closed:
  "processClusters cs (entry, n, tally) =
     (entry\<lparr>hkeep := hkeep entry @ map clusterKeep cs,
            hremove := hremove entry @ concat (map clusterRemove cs)\<rparr>,
      n + length (concat (map clusterRemove cs)),
      foldl (\<lambda>t style. bumpStyle style t) tally (concat (map clusterRemove cs)))"
proof (induction cs arbitrary: entry n tally)
  case Nil
  show ?case by simp
next
  case (Cons c cs)
  show ?case
    by (simp add: Cons.IH clusterKeep_def clusterRemove_def split: prod.splits)
qed

subsection \<open>The loop over the icons\<close>

lemma reportOf_keys: "set (map fst (reportOf gh es)) \<subseteq> set (map fst es)"
  by (induction es) (auto simp: reportOf_def iconDecisions_def split: sum.splits if_splits)

lemma reportOf_Cons: "reportOf gh (e # es) = iconDecisions gh e @ reportOf gh es"
  by (simp add: reportOf_def)

lemma removedStyles_append: "removedStyles (a @ b) = removedStyles a @ removedStyles b"
  by (simp add: removedStyles_def)

lemma processIcon_closed:
  assumes "processIcon gh st (n, vs) = Inr st'" and "n \<notin> set (map fst (hreport st))"
  shows "hreport st' = hreport st @ iconDecisions gh (n, vs)
       \<and> totalIcons st' = totalIcons st + 1
       \<and> totalIconsAffected st' = totalIconsAffected st + length (iconDecisions gh (n, vs))
       \<and> totalFilesRemoved st' =
           totalFilesRemoved st + length (removedStyles (iconDecisions gh (n, vs)))
       \<and> removedPerStyle st' =
           foldl (\<lambda>t style. bumpStyle style t) (removedPerStyle st)
             (removedStyles (iconDecisions gh (n, vs)))"
proof (cases "iconClusters gh vs")
  case (Inl e)
  with assms(1) show ?thesis by (simp add: processIcon_def)
next
  case (Inr cs)
  show ?thesis
  proof (cases "cs = []")
    case True
    with Inr assms(1) show ?thesis
      by (auto simp: processIcon_def iconDecisions_def removedStyles_def)
  next
    case False
    with Inr assms show ?thesis
      by (auto simp: processIcon_def iconDecisions_def removedStyles_def Let_def
          processClusters_closed clustersDecision_def objSet_fresh)
  qed
qed

lemma processEntries_closed:
  assumes "processEntries gh es st = Inr st'"
    and "distinct (map fst es)"
    and "set (map fst es) \<inter> set (map fst (hreport st)) = {}"
  shows "hreport st' = hreport st @ reportOf gh es
       \<and> totalIcons st' = totalIcons st + length es
       \<and> totalIconsAffected st' = totalIconsAffected st + length (reportOf gh es)
       \<and> totalFilesRemoved st' = totalFilesRemoved st + length (removedStyles (reportOf gh es))
       \<and> removedPerStyle st' =
           foldl (\<lambda>t style. bumpStyle style t) (removedPerStyle st)
             (removedStyles (reportOf gh es))"
  using assms
proof (induction es arbitrary: st)
  case Nil
  then show ?case by (simp add: reportOf_def removedStyles_def)
next
  case (Cons e es)
  obtain n vs where e: "e = (n, vs)" by (cases e)
  from Cons.prems(1) obtain st1 where
    s1: "processIcon gh st (n, vs) = Inr st1" and s2: "processEntries gh es st1 = Inr st'"
    by (auto simp: e split: sum.splits)
  from Cons.prems(3) have fresh: "n \<notin> set (map fst (hreport st))"
    by (auto simp: e)
  note one = processIcon_closed [OF s1 fresh]
  have keys1: "set (map fst (hreport st1)) \<subseteq> insert n (set (map fst (hreport st)))"
    using one by (auto simp: iconDecisions_def split: sum.splits if_splits)
  have d: "distinct (map fst es)" and nn: "n \<notin> set (map fst es)"
    using Cons.prems(2) by (simp_all add: e)
  have disj: "set (map fst es) \<inter> set (map fst (hreport st1)) = {}"
  proof -
    have "set (map fst es) \<inter> set (map fst (hreport st)) = {}"
      using Cons.prems(3) by (auto simp: e)
    with keys1 nn show ?thesis by blast
  qed
  note rest = Cons.IH [OF s2 d disj]
  show ?case
    using one rest by (simp add: e reportOf_Cons removedStyles_append)
qed

subsection \<open>The Group is well formed\<close>

lemma groupsWf_variants: "groupsWf g \<Longrightarrow> (n, vs) \<in> set g \<Longrightarrow> variantsWf vs"
  unfolding groupsWf_def list_all_iff by fastforce

lemma variantsWf_objSet: "variantsWf vs \<Longrightarrow> style \<in> set STYLES \<Longrightarrow> variantsWf (objSet style p vs)"
  by (auto simp: variantsWf_def keys_objSet)

lemma groupsWf_objSet:
  assumes "groupsWf g" and "variantsWf new"
  shows "groupsWf (objSet n new g)"
proof -
  have "list_all (\<lambda>p. variantsWf (snd p)) (objSet n new g)"
    unfolding list_all_iff
  proof
    fix p assume "p \<in> set (objSet n new g)"
    with set_objSet have "p = (n, new) \<or> p \<in> set g" by fastforce
    then show "variantsWf (snd p)"
    proof
      assume "p = (n, new)"
      with assms(2) show ?thesis by simp
    next
      assume "p \<in> set g"
      with assms(1) show ?thesis
        unfolding groupsWf_def list_all_iff by blast
    qed
  qed
  with assms(1) show ?thesis
    by (simp add: groupsWf_def distinct_objSet)
qed

lemma groupsWf_addFile:
  assumes "addFile dir style file st = Inr st'"
    and "groupsWf (ownProps st)" and "style \<in> set STYLES"
  shows "groupsWf (ownProps st')"
proof (cases "endsWith file ''.svg''")
  case False
  with assms(1,2) show ?thesis by (auto simp: addFile_def)
next
  case True
  define n where "n = basename file ''.svg''"
  show ?thesis
  proof (cases "lookupGroup st n")
    case (Own vs)
    then have "map_of (ownProps st) n = Some vs"
      by (auto simp: lookupGroup_def split: option.splits if_splits)
    then have "(n, vs) \<in> set (ownProps st)" by (rule map_of_SomeD)
    with assms(2) have "variantsWf vs" by (rule groupsWf_variants)
    then have "variantsWf (objSet style (pathJoin dir file) vs)"
      using assms(3) by (rule variantsWf_objSet)
    with assms(2) have "groupsWf (objSet n (objSet style (pathJoin dir file) vs) (ownProps st))"
      by (rule groupsWf_objSet)
    with assms(1) True Own show ?thesis
      by (auto simp: addFile_def n_def [symmetric])
  next
    case ProtoObject
    with assms(1,2) True show ?thesis
      by (auto simp: addFile_def n_def [symmetric])
  next
    case (ProtoString x)
    with assms(1) True show ?thesis
      by (simp add: addFile_def n_def [symmetric])
  next
    case ProtoFunction
    with assms(1,2) True show ?thesis
      by (auto simp: addFile_def n_def [symmetric])
  next
    case Undefined
    have "variantsWf [(style, pathJoin dir file)]"
      using assms(3) by (simp add: variantsWf_def)
    with assms(2) have "groupsWf (objSet n [(style, pathJoin dir file)] (ownProps st))"
      by (rule groupsWf_objSet)
    with assms(1) True Undefined show ?thesis
      by (auto simp: addFile_def n_def [symmetric])
  qed
qed

lemma groupsWf_scanFiles:
  "scanFiles dir style files st = Inr st' \<Longrightarrow> groupsWf (ownProps st) \<Longrightarrow> style \<in> set STYLES
    \<Longrightarrow> groupsWf (ownProps st')"
proof (induction files arbitrary: st)
  case Nil
  then show ?case by simp
next
  case (Cons f files)
  from Cons.prems(1) obtain st1 where
    a: "addFile dir style f st = Inr st1" and r: "scanFiles dir style files st1 = Inr st'"
    by (auto split: sum.splits)
  from a Cons.prems(2,3) have "groupsWf (ownProps st1)" by (rule groupsWf_addFile)
  with r show ?case using Cons.prems(3) by (rule Cons.IH)
qed

lemma groupsWf_scanStyles:
  "scanStyles fs iconDir styles st = Inr st' \<Longrightarrow> groupsWf (ownProps st)
    \<Longrightarrow> set styles \<subseteq> set STYLES \<Longrightarrow> groupsWf (ownProps st')"
proof (induction styles arbitrary: st)
  case Nil
  then show ?case by simp
next
  case (Cons style rest)
  from Cons.prems(3) have sty: "style \<in> set STYLES" and sub: "set rest \<subseteq> set STYLES"
    by simp_all
  show ?case
  proof (cases "fs (pathJoin iconDir style)")
    case Absent
    with Cons.prems(1) have "scanStyles fs iconDir rest st = Inr st'" by simp
    then show ?thesis using Cons.prems(2) sub by (rule Cons.IH)
  next
    case NotADirectory
    with Cons.prems(1) show ?thesis by simp
  next
    case (Listing files)
    with Cons.prems(1) obtain st1 where
      f: "scanFiles (pathJoin iconDir style) style files st = Inr st1"
      and r: "scanStyles fs iconDir rest st1 = Inr st'"
      by (auto split: sum.splits)
    from f Cons.prems(2) sty have "groupsWf (ownProps st1)"
      by (rule groupsWf_scanFiles)
    with r show ?thesis using sub by (rule Cons.IH)
  qed
qed

lemma groupsWf_groupIconsByName: "groupIconsByName fs iconDir = Inr g \<Longrightarrow> groupsWf g"
proof -
  assume "groupIconsByName fs iconDir = Inr g"
  then obtain st where
    "scanStyles fs iconDir STYLES \<lparr>ownProps = [], protoProps = []\<rparr> = Inr st" "g = ownProps st"
    by (auto simp: groupIconsByName_def split: sum.splits)
  moreover have "groupsWf (ownProps \<lparr>ownProps = [], protoProps = []\<rparr>)"
    by (simp add: groupsWf_def)
  ultimately show ?thesis
    using groupsWf_scanStyles [of fs iconDir STYLES "\<lparr>ownProps = [], protoProps = []\<rparr>" st]
    by simp
qed

subsection \<open>The styles of an icon are in the order of \<open>STYLES\<close>\<close>

lemma stylesInOrder_next:
  assumes "stylesInOrder scanned ks" and "s \<notin> set scanned"
  shows "stylesInOrder (scanned @ [s]) ks"
proof -
  from assms(1) have "set ks \<subseteq> set scanned"
    unfolding stylesInOrder_def by (metis filter_is_subset)
  with assms(2) have "s \<notin> set ks" by blast
  with assms(1) show ?thesis by (simp add: stylesInOrder_def)
qed

lemma stylesInOrder_add:
  assumes "stylesInOrder (scanned @ [s]) ks" and "s \<notin> set scanned"
  shows "stylesInOrder (scanned @ [s]) (if s \<in> set ks then ks else ks @ [s])"
proof (cases "s \<in> set ks")
  case True
  with assms(1) show ?thesis by simp
next
  case False
  from assms(1) have "ks = filter (\<lambda>x. x \<in> set ks) (scanned @ [s])"
    by (simp only: stylesInOrder_def)
  also have "\<dots> = filter (\<lambda>x. x \<in> set ks) scanned"
    using False by simp
  finally have k: "ks = filter (\<lambda>x. x \<in> set ks) scanned" .
  have e1: "filter (\<lambda>x. x \<in> set (ks @ [s])) scanned = filter (\<lambda>x. x \<in> set ks) scanned"
    using assms(2) by (intro filter_cong) auto
  have e2: "filter (\<lambda>x. x \<in> set (ks @ [s])) (scanned @ [s])
              = filter (\<lambda>x. x \<in> set (ks @ [s])) scanned @ [s]"
    by simp
  have "ks @ [s] = filter (\<lambda>x. x \<in> set (ks @ [s])) (scanned @ [s])"
    unfolding e2 e1 by (rule arg_cong [where f = "\<lambda>l. l @ [s]", OF k])
  then have "stylesInOrder (scanned @ [s]) (ks @ [s])"
    by (simp only: stylesInOrder_def)
  with False show ?thesis by simp
qed

lemma stylesInOrder_single: "s \<notin> set scanned \<Longrightarrow> stylesInOrder (scanned @ [s]) [s]"
  by (auto simp: stylesInOrder_def filter_empty_conv)

lemma addFile_variants:
  assumes "addFile dir style file st = Inr st'" and "(n, vs) \<in> set (ownProps st')"
  shows "(n, vs) \<in> set (ownProps st) \<or> vs = [(style, pathJoin dir file)]
       \<or> (\<exists>vs0. (n, vs0) \<in> set (ownProps st) \<and> vs = objSet style (pathJoin dir file) vs0)"
proof (cases "endsWith file ''.svg''")
  case False
  with assms show ?thesis by (auto simp: addFile_def)
next
  case True
  define m where "m = basename file ''.svg''"
  show ?thesis
  proof (cases "lookupGroup st m")
    case (Own vs0)
    then have "map_of (ownProps st) m = Some vs0"
      by (auto simp: lookupGroup_def split: option.splits if_splits)
    then have m0: "(m, vs0) \<in> set (ownProps st)" by (rule map_of_SomeD)
    from assms(1) True Own have
      "ownProps st' = objSet m (objSet style (pathJoin dir file) vs0) (ownProps st)"
      by (auto simp: addFile_def m_def [symmetric])
    with assms(2) set_objSet [of m "objSet style (pathJoin dir file) vs0" "ownProps st"]
    have "(n, vs) = (m, objSet style (pathJoin dir file) vs0) \<or> (n, vs) \<in> set (ownProps st)"
      by auto
    with m0 show ?thesis by auto
  next
    case ProtoObject
    with assms True show ?thesis
      by (auto simp: addFile_def m_def [symmetric])
  next
    case (ProtoString x)
    with assms(1) True show ?thesis
      by (simp add: addFile_def m_def [symmetric])
  next
    case ProtoFunction
    with assms True show ?thesis
      by (auto simp: addFile_def m_def [symmetric])
  next
    case Undefined
    with assms(1) True have
      "ownProps st' = objSet m [(style, pathJoin dir file)] (ownProps st)"
      by (auto simp: addFile_def m_def [symmetric])
    with assms(2) set_objSet [of m "[(style, pathJoin dir file)]" "ownProps st"]
    have "(n, vs) = (m, [(style, pathJoin dir file)]) \<or> (n, vs) \<in> set (ownProps st)"
      by auto
    then show ?thesis by auto
  qed
qed

lemma stylesInOrder_addFile:
  assumes a: "addFile dir style file st = Inr st'"
    and inv: "\<And>n vs. (n, vs) \<in> set (ownProps st) \<Longrightarrow> stylesInOrder (scanned @ [style]) (map fst vs)"
    and fresh: "style \<notin> set scanned"
    and m: "(n, vs) \<in> set (ownProps st')"
  shows "stylesInOrder (scanned @ [style]) (map fst vs)"
proof -
  from addFile_variants [OF a m] consider
    (old) "(n, vs) \<in> set (ownProps st)"
    | (new) "vs = [(style, pathJoin dir file)]"
    | (upd) vs0 where "(n, vs0) \<in> set (ownProps st)" "vs = objSet style (pathJoin dir file) vs0"
    by blast
  then show ?thesis
  proof cases
    case old
    then show ?thesis by (rule inv)
  next
    case new
    with fresh show ?thesis by (simp add: stylesInOrder_single)
  next
    case upd
    from upd(1) have "stylesInOrder (scanned @ [style]) (map fst vs0)" by (rule inv)
    from stylesInOrder_add [OF this fresh] show ?thesis
      by (simp add: upd(2) keys_objSet)
  qed
qed

lemma stylesInOrder_scanFiles:
  "scanFiles dir style files st = Inr st'
    \<Longrightarrow> (\<And>n vs. (n, vs) \<in> set (ownProps st) \<Longrightarrow> stylesInOrder (scanned @ [style]) (map fst vs))
    \<Longrightarrow> style \<notin> set scanned \<Longrightarrow> (n, vs) \<in> set (ownProps st')
    \<Longrightarrow> stylesInOrder (scanned @ [style]) (map fst vs)"
proof (induction files arbitrary: st)
  case Nil
  then show ?case by simp
next
  case (Cons f files)
  from Cons.prems(1) obtain st1 where
    a: "addFile dir style f st = Inr st1" and r: "scanFiles dir style files st1 = Inr st'"
    by (auto split: sum.splits)
  have i1: "stylesInOrder (scanned @ [style]) (map fst vs1)"
    if "(n1, vs1) \<in> set (ownProps st1)" for n1 vs1
    using a Cons.prems(2) Cons.prems(3) that by (rule stylesInOrder_addFile)
  from r i1 Cons.prems(3) Cons.prems(4) show ?case by (rule Cons.IH)
qed

lemma stylesInOrder_scanStyles:
  "scanStyles fs iconDir rest st = Inr st'
    \<Longrightarrow> (\<And>n vs. (n, vs) \<in> set (ownProps st) \<Longrightarrow> stylesInOrder scanned (map fst vs))
    \<Longrightarrow> distinct (scanned @ rest) \<Longrightarrow> (n, vs) \<in> set (ownProps st')
    \<Longrightarrow> stylesInOrder (scanned @ rest) (map fst vs)"
proof (induction rest arbitrary: st scanned)
  case Nil
  then show ?case by simp
next
  case (Cons style rest)
  from Cons.prems(3) have fresh: "style \<notin> set scanned"
    and d: "distinct ((scanned @ [style]) @ rest)"
    by simp_all
  have i0: "stylesInOrder (scanned @ [style]) (map fst vs0)"
    if "(n0, vs0) \<in> set (ownProps st)" for n0 vs0
  proof -
    from that have "stylesInOrder scanned (map fst vs0)" by (rule Cons.prems(2))
    then show ?thesis using fresh by (rule stylesInOrder_next)
  qed
  have "stylesInOrder ((scanned @ [style]) @ rest) (map fst vs)"
  proof (cases "fs (pathJoin iconDir style)")
    case Absent
    with Cons.prems(1) have "scanStyles fs iconDir rest st = Inr st'" by simp
    then show ?thesis using i0 d Cons.prems(4) by (rule Cons.IH)
  next
    case NotADirectory
    with Cons.prems(1) show ?thesis by simp
  next
    case (Listing files)
    with Cons.prems(1) obtain st1 where
      f: "scanFiles (pathJoin iconDir style) style files st = Inr st1"
      and r: "scanStyles fs iconDir rest st1 = Inr st'"
      by (auto split: sum.splits)
    have i1: "stylesInOrder (scanned @ [style]) (map fst vs1)"
      if "(n1, vs1) \<in> set (ownProps st1)" for n1 vs1
      using f i0 fresh that by (rule stylesInOrder_scanFiles)
    from r i1 d Cons.prems(4) show ?thesis by (rule Cons.IH)
  qed
  then show ?case by simp
qed

lemma groupIconsByName_ordered:
  assumes "groupIconsByName fs iconDir = Inr g" and "(n, vs) \<in> set g"
  shows "map fst vs = filter (\<lambda>s. s \<in> set (map fst vs)) STYLES"
proof -
  from assms(1) obtain st where
    s: "scanStyles fs iconDir STYLES \<lparr>ownProps = [], protoProps = []\<rparr> = Inr st"
    and g: "g = ownProps st"
    by (auto simp: groupIconsByName_def split: sum.splits)
  have i: "stylesInOrder [] (map fst vs0)"
    if "(n0, vs0) \<in> set (ownProps \<lparr>ownProps = [], protoProps = []\<rparr>)" for n0 vs0
    using that by simp
  have d: "distinct ([] @ STYLES)" by (simp add: STYLES_def)
  from assms(2) have m: "(n, vs) \<in> set (ownProps st)" by (simp add: g)
  from s i d m have "stylesInOrder ([] @ STYLES) (map fst vs)"
    by (rule stylesInOrder_scanStyles)
  then show ?thesis by (simp only: stylesInOrder_def append_Nil)
qed

lemma three_or_four_styles:
  assumes "map fst vs = filter (\<lambda>s. s \<in> set (map fst vs)) STYLES"
    and "{''outlined'', ''filled'', ''round''} \<subseteq> set (map fst vs)"
  obtains (three) po pf pr where "''sharp'' \<notin> set (map fst vs)"
      "vs = [(''outlined'', po), (''filled'', pf), (''round'', pr)]"
    | (four) po pf ps pr where "''sharp'' \<in> set (map fst vs)"
      "vs = [(''outlined'', po), (''filled'', pf), (''sharp'', ps), (''round'', pr)]"
proof -
  define K where "K = set (map fst vs)"
  from assms(2) have o: "''outlined'' \<in> K" "''filled'' \<in> K" "''round'' \<in> K"
    by (simp_all add: K_def)
  from assms(1) have e: "map fst vs = filter (\<lambda>s. s \<in> K) STYLES"
    by (simp only: K_def)
  show thesis
  proof (cases "''sharp'' \<in> K")
    case True
    with o have "filter (\<lambda>s. s \<in> K) STYLES = [''outlined'', ''filled'', ''sharp'', ''round'']"
      by (simp add: STYLES_def)
    with e have "map fst vs = [''outlined'', ''filled'', ''sharp'', ''round'']" by simp
    then obtain po pf ps pr where
      "vs = [(''outlined'', po), (''filled'', pf), (''sharp'', ps), (''round'', pr)]"
      by (auto simp: map_eq_Cons_conv)
    moreover note True [unfolded K_def]
    ultimately show thesis by (rule four [rotated])
  next
    case False
    with o have "filter (\<lambda>s. s \<in> K) STYLES = [''outlined'', ''filled'', ''round'']"
      by (simp add: STYLES_def)
    with e have "map fst vs = [''outlined'', ''filled'', ''round'']" by simp
    then obtain po pf pr where
      "vs = [(''outlined'', po), (''filled'', pf), (''round'', pr)]"
      by (auto simp: map_eq_Cons_conv)
    moreover note False [unfolded K_def]
    ultimately show thesis by (rule three [rotated])
  qed
qed

subsection \<open>The clusters of one icon are its classes of equal digest\<close>

lemma computeHashes_closed:
  "computeHashes gh es acc = Inr hs \<Longrightarrow> distinct (map fst acc @ map fst es)
    \<Longrightarrow> \<exists>new. hs = acc @ new
          \<and> list_all2 (\<lambda>e h. fst h = fst e \<and> gh (snd e) = Some (snd h)) es new"
proof (induction gh es acc rule: computeHashes.induct)
  case (1 gh hashes)
  then show ?case by simp
next
  case (2 gh style filePath rest hashes)
  from "2.prems"(1) obtain hash where
    h: "gh filePath = Some hash"
    and r: "computeHashes gh rest (objSet style hash hashes) = Inr hs"
    by (auto split: option.splits)
  from "2.prems"(2) have fresh: "style \<notin> set (map fst hashes)" by auto
  then have o: "objSet style hash hashes = hashes @ [(style, hash)]"
    by (rule objSet_fresh)
  have "distinct (map fst (objSet style hash hashes) @ map fst rest)"
    using "2.prems"(2) by (auto simp: o)
  from "2.IH" [OF h r this] obtain new where
    "hs = objSet style hash hashes @ new"
    "list_all2 (\<lambda>e h. fst h = fst e \<and> gh (snd e) = Some (snd h)) rest new"
    by blast
  then show ?case
    using h by (intro exI [of _ "(style, hash) # new"]) (simp add: o)
qed

lemma filter_hash_list_all2:
  "list_all2 (\<lambda>e h. fst h = fst e \<and> gh (snd e) = Some (snd h)) es hs
    \<Longrightarrow> map fst (filter (\<lambda>p. snd p = h) hs) = stylesWithHash gh es h"
  by (induction es hs rule: list_all2_induct) (auto simp: stylesWithHash_def)

lemma iconClusters_sound:
  assumes "iconClusters gh vs = Inr cs"
    and "variantsWf vs"
    and "c \<in> set cs"
  shows "length c > 1 \<and> (\<exists>h. c = stylesWithHash gh vs h)"
proof -
  from assms(2) have dv: "distinct (map fst vs)" and sv: "set (map fst vs) \<subseteq> set STYLES"
    by (simp_all add: variantsWf_def)
  have ov: "objectEntries vs = vs" using sv by (rule objectEntries_styles)
  from assms(1) obtain hs where
    hs: "computeHashes gh vs [] = Inr hs"
    and cs: "cs = duplicateClusters (buildHashMap (objectEntries hs) [])"
    by (auto simp: iconClusters_def ov split: sum.splits)
  from computeHashes_keys [OF hs] sv have "set (map fst hs) \<subseteq> set STYLES" by simp
  then have oh: "objectEntries hs = hs" by (rule objectEntries_styles)
  from computeHashes_closed [OF hs] dv have
    la: "list_all2 (\<lambda>e h. fst h = fst e \<and> gh (snd e) = Some (snd h)) vs hs"
    by auto
  from assms(3) have "c \<in> set (duplicateClusters (buildHashMap hs []))"
    by (simp add: cs oh)
  from duplicateClusters_sound [OF this] obtain h where
    "length c > 1" "c = map fst (filter (\<lambda>p. snd p = h) hs)"
    by blast
  then show ?thesis
    using filter_hash_list_all2 [OF la] by auto
qed

lemma stylesWithHash_subset: "set (stylesWithHash gh vs h) \<subseteq> set (map fst vs)"
  by (auto simp: stylesWithHash_def)

lemma stylesWithHash_distinct: "distinct (map fst vs) \<Longrightarrow> distinct (stylesWithHash gh vs h)"
  by (simp add: stylesWithHash_def distinct_map_filter)

subsection \<open>The tallies\<close>

lemma tallyOk_bump:
  assumes "tallyOk t n" and "s \<in> set STYLES"
  shows "tallyOk (bumpStyle s t) (Suc n)"
proof -
  from assms(1) obtain a b c d where
    t: "t = [(''outlined'', Num a), (''filled'', Num b), (''sharp'', Num c), (''round'', Num d)]"
    and n: "a + b + c + d = n"
    unfolding tallyOk_def by blast
  from assms(2) consider "s = ''outlined''" | "s = ''filled''" | "s = ''sharp''" | "s = ''round''"
    by (auto simp: STYLES_def)
  then show ?thesis
    using n by cases (simp_all add: t tallyOk_def bumpStyle_def tallyGet_def)
qed

lemma tallyOk_foldl:
  "tallyOk t n \<Longrightarrow> set rs \<subseteq> set STYLES
    \<Longrightarrow> tallyOk (foldl (\<lambda>t style. bumpStyle style t) t rs) (n + length rs)"
proof (induction rs arbitrary: t n)
  case Nil
  then show ?case by simp
next
  case (Cons r rs)
  from Cons.prems have "tallyOk (bumpStyle r t) (Suc n)"
    by (simp add: tallyOk_bump)
  from Cons.IH [OF this] Cons.prems(2) show ?case by simp
qed

lemma tallyOk_printed: "tallyOk t n \<Longrightarrow> jsSum (printedTallies t) = Num n"
  by (auto simp: tallyOk_def printedTallies_def STYLES_def tallyGet_def jsSum_def)

lemma tallyOk_init: "tallyOk (map (\<lambda>s. (s, Num 0)) STYLES) 0"
  by (simp add: tallyOk_def STYLES_def)

subsection \<open>The Map of visual duplicates and the involved set\<close>

lemma set_foldl_setAdd: "set (foldl setAdd acc xs) = set acc \<union> set xs"
  by (induction xs arbitrary: acc) (auto simp: setAdd_def)

lemma distinct_foldl_setAdd: "distinct acc \<Longrightarrow> distinct (foldl setAdd acc xs)"
  by (induction xs arbitrary: acc) (auto simp: setAdd_def)

lemma set_allInvolved: "set (allInvolved vd) = touched vd"
  by (simp add: allInvolved_def touched_def set_foldl_setAdd)

lemma distinct_allInvolved: "distinct (allInvolved vd)"
  by (simp add: allInvolved_def distinct_foldl_setAdd)

lemma allInvolved_Nil: "allInvolved vd = [] \<longleftrightarrow> vd = []"
proof
  assume "allInvolved vd = []"
  then have "touched vd = {}" using set_allInvolved [of vd] by simp
  then show "vd = []" by (simp add: touched_def)
next
  assume "vd = []"
  then show "allInvolved vd = []" by (simp add: allInvolved_def)
qed

lemma touched_objSet:
  "set (setOf vd k) \<subseteq> set s \<Longrightarrow> touched (objSet k s vd) = touched vd \<union> insert k (set s)"
proof (induction vd)
  case Nil
  show ?case by (simp add: touched_def)
next
  case (Cons p ps)
  show ?case
  proof (cases "fst p = k")
    case True
    with Cons.prems show ?thesis
      by (auto simp: touched_def setOf_def)
  next
    case False
    with Cons.prems have "set (setOf ps k) \<subseteq> set s"
      by (simp add: setOf_def)
    from Cons.IH [OF this] False show ?thesis
      by (auto simp: touched_def)
  qed
qed

lemma setOf_touched: "set (setOf vd k) \<subseteq> touched vd"
proof (cases "map_of vd k")
  case None
  then show ?thesis by (simp add: setOf_def)
next
  case (Some s)
  then have "(k, s) \<in> set vd" by (rule map_of_SomeD)
  then have "set s \<subseteq> set (concat (map snd vd))" by force
  with Some show ?thesis by (auto simp: setOf_def touched_def)
qed

lemma set_endsOf: "set (endsOf ps) = fst ` set ps \<union> snd ` set ps"
  by (induction ps) (auto simp: endsOf_def)

lemma touched_recordPair: "touched (recordPair a b vd) = touched vd \<union> {a, b}"
proof -
  define vd1 where "vd1 = (if map_of vd a = None then objSet a [] vd else vd)"
  define vd2 where "vd2 = (if map_of vd1 b = None then objSet b [] vd1 else vd1)"
  define vd3 where "vd3 = objSet a (setAdd (setOf vd2 a) b) vd2"
  have r: "recordPair a b vd = objSet b (setAdd (setOf vd3 b) a) vd3"
    by (simp add: recordPair_def vd1_def vd2_def vd3_def Let_def)
  have k: "map_of m x \<noteq> None \<Longrightarrow> x \<in> touched m" for m x
    by (auto simp: touched_def dest!: map_of_SomeD) (metis fst_conv image_eqI)
  have t1: "touched vd1 = touched vd \<union> (if map_of vd a = None then {a} else {})"
    by (simp add: vd1_def touched_objSet setOf_def)
  have t2: "touched vd2 = touched vd1 \<union> (if map_of vd1 b = None then {b} else {})"
    by (simp add: vd2_def touched_objSet setOf_def)
  have t3: "touched vd3 = touched vd2 \<union> insert a (set (setOf vd2 a) \<union> {b})"
    unfolding vd3_def by (subst touched_objSet) (auto simp: setAdd_def)
  have t4: "touched (recordPair a b vd) = touched vd3 \<union> insert b (set (setOf vd3 b) \<union> {a})"
    unfolding r by (subst touched_objSet) (auto simp: setAdd_def)
  show ?thesis
    using t1 t2 t3 t4 setOf_touched [of vd2 a] setOf_touched [of vd3 b]
    by (auto split: if_splits)
qed

lemma pairsOf_distinct:
  "(a, b) \<in> set (pairsOf xs) \<Longrightarrow> distinct xs \<Longrightarrow> a \<noteq> b \<and> a \<in> set xs \<and> b \<in> set xs"
  by (induction xs) auto

lemma renderAll_closed:
  "renderAll render tempDir n es acc = Inr png \<Longrightarrow> distinct (map fst acc @ map fst es)
    \<Longrightarrow> png = acc @ map (\<lambda>e. (fst e, pngPathOf tempDir n (fst e))) es"
proof (induction render tempDir n es acc rule: renderAll.induct)
  case (1 render tempDir iconName pngPaths)
  then show ?case by simp
next
  case (2 render tempDir iconName style svgPath rest pngPaths)
  from "2.prems"(2) have "style \<notin> set (map fst pngPaths)" by auto
  then have o: "objSet style (pngPathOf tempDir iconName style) pngPaths
                = pngPaths @ [(style, pngPathOf tempDir iconName style)]"
    by (rule objSet_fresh)
  from "2.prems" have
    ok: "render svgPath (pngPathOf tempDir iconName style)"
    and r: "renderAll render tempDir iconName rest
             (objSet style (pngPathOf tempDir iconName style) pngPaths) = Inr png"
    by (auto split: if_splits)
  have "distinct (map fst (objSet style (pngPathOf tempDir iconName style) pngPaths) @ map fst rest)"
    using "2.prems"(2) by (auto simp: o)
  from "2.IH" [OF ok r this] show ?case by (simp add: o)
qed

lemma map_of_pngPaths:
  "s \<in> set (map fst es) \<Longrightarrow>
   map_of (map (\<lambda>e. (fst e, pngPathOf tempDir n (fst e))) es) s = Some (pngPathOf tempDir n s)"
  by (induction es) auto

lemma endsOf_append: "endsOf (xs @ ys) = endsOf xs @ endsOf ys"
  by (simp add: endsOf_def)

lemma compareWith_touched:
  assumes "compareWith compare png a bs vd = Inr vd'"
    and "\<And>s. s \<in> insert a (set bs) \<Longrightarrow> map_of png s = Some (pngPathOf tempDir n s)"
  shows "touched vd' =
           touched vd \<union> set (endsOf (filter (judgedEqual compare tempDir n) (map (Pair a) bs)))"
  using assms
proof (induction bs arbitrary: vd)
  case Nil
  then show ?case by (simp add: endsOf_def)
next
  case (Cons b bs)
  have pa: "map_of png a = Some (pngPathOf tempDir n a)"
    and pb: "map_of png b = Some (pngPathOf tempDir n b)"
    using Cons.prems(2) by simp_all
  from Cons.prems(1) obtain eq where
    c: "compare (pngPathOf tempDir n a) (pngPathOf tempDir n b) = Some eq"
    and r: "compareWith compare png a bs (if eq then recordPair a b vd else vd) = Inr vd'"
    by (auto simp: pa pb split: option.splits)
  have "touched vd' = touched (if eq then recordPair a b vd else vd)
          \<union> set (endsOf (filter (judgedEqual compare tempDir n) (map (Pair a) bs)))"
    using r Cons.prems(2) by (intro Cons.IH) auto
  then show ?case
    using c by (auto simp: touched_recordPair judgedEqual_def endsOf_def)
qed

lemma comparePairs_touched:
  assumes "comparePairs compare png xs vd = Inr vd'"
    and "\<And>s. s \<in> set xs \<Longrightarrow> map_of png s = Some (pngPathOf tempDir n s)"
  shows "touched vd' = touched vd \<union> set (involvedStyles compare tempDir n xs)"
  using assms
proof (induction xs arbitrary: vd)
  case Nil
  then show ?case by (simp add: involvedStyles_def endsOf_def)
next
  case (Cons a rest)
  from Cons.prems(1) obtain vd1 where
    w: "compareWith compare png a rest vd = Inr vd1"
    and r: "comparePairs compare png rest vd1 = Inr vd'"
    by (auto split: sum.splits)
  have t1: "touched vd1 =
      touched vd \<union> set (endsOf (filter (judgedEqual compare tempDir n) (map (Pair a) rest)))"
    using w Cons.prems(2) by (intro compareWith_touched) simp_all
  have "touched vd' = touched vd1 \<union> set (involvedStyles compare tempDir n rest)"
    using r Cons.prems(2) by (intro Cons.IH) simp_all
  with t1 show ?case
    by (simp add: involvedStyles_def endsOf_append Un_assoc)
qed

lemma iconInvolved_sound:
  assumes "iconInvolved render compare tempDir (n, vs) = Inr cl" and "variantsWf vs"
  shows "distinct cl \<and> set cl = set (involvedStyles compare tempDir n (map fst vs))"
proof -
  from assms(2) have dv: "distinct (map fst vs)" and sv: "set (map fst vs) \<subseteq> set STYLES"
    by (simp_all add: variantsWf_def)
  have ov: "objectEntries vs = vs" using sv by (rule objectEntries_styles)
  show ?thesis
  proof (cases "length vs < 2")
    case True
    then have "pairsOf (map fst vs) = []"
      by (cases vs; cases "tl vs") auto
    with True assms(1) show ?thesis
      by (auto simp: iconInvolved_def ov involvedStyles_def endsOf_def)
  next
    case False
    with assms(1) obtain png vd where
      ra: "renderAll render tempDir n vs [] = Inr png"
      and cp: "comparePairs compare png (map fst vs) [] = Inr vd"
      and cl: "cl = (if length vd > 0 then allInvolved vd else [])"
      by (auto simp: iconInvolved_def ov Let_def split: sum.splits if_splits)
    from renderAll_closed [OF ra] dv have
      png: "png = map (\<lambda>e. (fst e, pngPathOf tempDir n (fst e))) vs" by simp
    have "touched vd = touched [] \<union> set (involvedStyles compare tempDir n (map fst vs))"
      using cp by (rule comparePairs_touched) (simp add: png map_of_pngPaths)
    then have t: "touched vd = set (involvedStyles compare tempDir n (map fst vs))"
      by (simp add: touched_def)
    have "cl = allInvolved vd"
      using cl by (cases vd) (simp_all add: allInvolved_def)
    with t show ?thesis
      by (simp add: distinct_allInvolved set_allInvolved)
  qed
qed

lemma involvedStyles_two:
  assumes "distinct xs" and "involvedStyles compare tempDir n xs \<noteq> []"
  shows "\<exists>a b. a \<noteq> b \<and> a \<in> set (involvedStyles compare tempDir n xs)
               \<and> b \<in> set (involvedStyles compare tempDir n xs)"
proof -
  from assms(2) obtain p where
    p: "p \<in> set (filter (judgedEqual compare tempDir n) (pairsOf xs))"
    by (cases "filter (judgedEqual compare tempDir n) (pairsOf xs)")
      (auto simp: involvedStyles_def endsOf_def)
  then have "(fst p, snd p) \<in> set (pairsOf xs)" by simp
  from pairsOf_distinct [OF this assms(1)] have "fst p \<noteq> snd p" by simp
  moreover from p have "fst p \<in> set (involvedStyles compare tempDir n xs)"
    "snd p \<in> set (involvedStyles compare tempDir n xs)"
    unfolding involvedStyles_def set_endsOf by blast+
  ultimately show ?thesis by blast
qed

lemma involvedStyles_subset: "set (involvedStyles compare tempDir n xs) \<subseteq> set xs"
proof -
  have "(a, b) \<in> set (pairsOf xs) \<Longrightarrow> a \<in> set xs \<and> b \<in> set xs" for a b
    by (induction xs) auto
  then show ?thesis
    by (auto simp: involvedStyles_def set_endsOf)
qed

subsection \<open>The loop over the icons, visual deduplicator\<close>

lemma tallyRemovals_append:
  "tallyRemovals (xs @ ys) acc = tallyRemovals ys (tallyRemovals xs acc)"
  by (induction xs acc rule: tallyRemovals.induct) simp_all

lemma tallyOk_known: "tallyOk t k \<Longrightarrow> s \<in> set STYLES \<Longrightarrow> map_of t s \<noteq> None"
  by (auto simp: tallyOk_def STYLES_def)

lemma tallyRemovals_ok:
  "tallyOk t k \<Longrightarrow> set rs \<subseteq> set STYLES
    \<Longrightarrow> tallyOk (fst (tallyRemovals rs (t, k))) (k + length rs)
        \<and> snd (tallyRemovals rs (t, k)) = k + length rs"
proof (induction rs arbitrary: t k)
  case Nil
  then show ?case by simp
next
  case (Cons r rs)
  from Cons.prems have known: "map_of t r \<noteq> None" and b: "tallyOk (bumpStyle r t) (Suc k)"
    by (simp_all add: tallyOk_known tallyOk_bump)
  from Cons.IH [OF b] Cons.prems(2) known show ?case by simp
qed

lemma vreportOf_keys: "set (map fst (vreportOf r c t es)) \<subseteq> set (map fst es)"
  by (induction es) (auto simp: vreportOf_def visualDecisions_def split: sum.splits if_splits)

lemma vreportOf_Cons: "vreportOf r c t (e # es) = visualDecisions r c t e @ vreportOf r c t es"
  by (simp add: vreportOf_def)

lemma vremovedStyles_append: "vremovedStyles (a @ b) = vremovedStyles a @ vremovedStyles b"
  by (simp add: vremovedStyles_def)

lemma processVisualIcon_closed:
  assumes "processVisualIcon r c t st (n, vs) = Inr st'" and "n \<notin> set (map fst (vreport st))"
  shows "vreport st' = vreport st @ visualDecisions r c t (n, vs)
       \<and> vtotalIcons st' = vtotalIcons st + 1
       \<and> iconsWithDuplicates st' = iconsWithDuplicates st + length (visualDecisions r c t (n, vs))
       \<and> (removalByStyle st', totalFilesToRemove st') =
           tallyRemovals (vremovedStyles (visualDecisions r c t (n, vs)))
             (removalByStyle st, totalFilesToRemove st)"
proof (cases "length (objectEntries vs) < 2")
  case True
  with assms(1) show ?thesis
    by (auto simp: processVisualIcon_def visualDecisions_def iconInvolved_def vremovedStyles_def)
next
  case False
  with assms(1) obtain png vd where
    ra: "renderAll r t n (objectEntries vs) [] = Inr png"
    and cp: "comparePairs c png (map fst (objectEntries vs)) [] = Inr vd"
    by (auto simp: processVisualIcon_def Let_def split: sum.splits)
  show ?thesis
  proof (cases "vd = []")
    case True
    with False ra cp assms(1) show ?thesis
      by (auto simp: processVisualIcon_def visualDecisions_def iconInvolved_def vremovedStyles_def)
  next
    case ne: False
    then have inv: "iconInvolved r c t (n, vs) = Inr (allInvolved vd)" "allInvolved vd \<noteq> []"
      using False ra cp by (simp_all add: iconInvolved_def allInvolved_Nil)
    have dec: "visualDecisions r c t (n, vs) = [(n, clusterDecision (allInvolved vd))]"
      using inv by (simp add: visualDecisions_def)
    obtain tally k where
      tr: "tallyRemovals (clusterRemove (allInvolved vd)) (removalByStyle st, totalFilesToRemove st)
            = (tally, k)"
      by (cases "tallyRemovals (clusterRemove (allInvolved vd))
                   (removalByStyle st, totalFilesToRemove st)")
    from assms(1) False ra cp ne tr have
      "st' = st\<lparr>vtotalIcons := vtotalIcons st + 1,
                vreport := objSet n (clusterDecision (allInvolved vd)) (vreport st),
                iconsWithDuplicates := iconsWithDuplicates st + 1,
                totalFilesToRemove := k, removalByStyle := tally\<rparr>"
      by (auto simp: processVisualIcon_def Let_def clusterDecision_def clusterKeep_def
          clusterRemove_def split: prod.splits)
    then show ?thesis
      using assms(2) tr by (simp add: dec objSet_fresh vremovedStyles_def clusterDecision_def)
  qed
qed

lemma processVisualEntries_closed:
  assumes "processVisualEntries r c t es st = Inr st'"
    and "distinct (map fst es)"
    and "set (map fst es) \<inter> set (map fst (vreport st)) = {}"
  shows "vreport st' = vreport st @ vreportOf r c t es
       \<and> vtotalIcons st' = vtotalIcons st + length es
       \<and> iconsWithDuplicates st' = iconsWithDuplicates st + length (vreportOf r c t es)
       \<and> (removalByStyle st', totalFilesToRemove st') =
           tallyRemovals (vremovedStyles (vreportOf r c t es))
             (removalByStyle st, totalFilesToRemove st)"
  using assms
proof (induction es arbitrary: st)
  case Nil
  then show ?case by (simp add: vreportOf_def vremovedStyles_def)
next
  case (Cons e es)
  obtain n vs where e: "e = (n, vs)" by (cases e)
  from Cons.prems(1) obtain st1 where
    s1: "processVisualIcon r c t st (n, vs) = Inr st1"
    and s2: "processVisualEntries r c t es st1 = Inr st'"
    by (auto simp: e split: sum.splits)
  from Cons.prems(3) have fresh: "n \<notin> set (map fst (vreport st))"
    by (auto simp: e)
  note one = processVisualIcon_closed [OF s1 fresh]
  have keys1: "set (map fst (vreport st1)) \<subseteq> insert n (set (map fst (vreport st)))"
    using one by (auto simp: visualDecisions_def split: sum.splits if_splits)
  have d: "distinct (map fst es)" and nn: "n \<notin> set (map fst es)"
    using Cons.prems(2) by (simp_all add: e)
  have disj: "set (map fst es) \<inter> set (map fst (vreport st1)) = {}"
  proof -
    have "set (map fst es) \<inter> set (map fst (vreport st)) = {}"
      using Cons.prems(3) by (auto simp: e)
    with keys1 nn show ?thesis by blast
  qed
  note rest = Cons.IH [OF s2 d disj]
  have "(removalByStyle st', totalFilesToRemove st') =
          tallyRemovals (vremovedStyles (vreportOf r c t es))
            (tallyRemovals (vremovedStyles (visualDecisions r c t (n, vs)))
               (removalByStyle st, totalFilesToRemove st))"
    using one rest by simp
  then show ?case
    using one rest
    by (simp add: e vreportOf_Cons vremovedStyles_append tallyRemovals_append)
qed

subsection \<open>The two runs\<close>

lemma hash_run:
  assumes "processIconGroups fs iconDir gh = Inr out"
  obtains g where "groupIconsByName fs iconDir = Inr g" and "groupsWf g"
    and "hreport out = reportOf gh (objectEntries g)"
    and "totalIcons out = length g"
    and "totalIconsAffected out = length (hreport out)"
    and "totalFilesRemoved out = length (removedStyles (hreport out))"
    and "removedPerStyle out =
           foldl (\<lambda>t style. bumpStyle style t) (map (\<lambda>s. (s, Num 0)) STYLES)
             (removedStyles (hreport out))"
proof -
  from assms obtain g where
    g: "groupIconsByName fs iconDir = Inr g"
    and p: "processEntries gh (objectEntries g) hInit = Inr out"
    by (auto simp: processIconGroups_def split: sum.splits)
  have wf: "groupsWf g" using g by (rule groupsWf_groupIconsByName)
  then have d: "distinct (map fst (objectEntries g))"
    by (simp add: groupsWf_def distinct_objectEntries)
  have "set (map fst (objectEntries g)) \<inter> set (map fst (hreport hInit)) = {}"
    by (simp add: hInit_def)
  from processEntries_closed [OF p d this] have
    "hreport out = reportOf gh (objectEntries g)"
    "totalIcons out = length g"
    "totalIconsAffected out = length (hreport out)"
    "totalFilesRemoved out = length (removedStyles (hreport out))"
    "removedPerStyle out =
       foldl (\<lambda>t style. bumpStyle style t) (map (\<lambda>s. (s, Num 0)) STYLES)
         (removedStyles (hreport out))"
    by (simp_all add: hInit_def length_objectEntries)
  with g wf show thesis by (rule that)
qed

lemma visual_run:
  assumes "processVisualDeduplication fs iconDir t r c = Inr out"
  obtains g where "groupIconsByName fs iconDir = Inr g" and "groupsWf g"
    and "vreport out = vreportOf r c t (objectEntries g)"
    and "vtotalIcons out = length g"
    and "iconsWithDuplicates out = length (vreport out)"
    and "(removalByStyle out, totalFilesToRemove out) =
           tallyRemovals (vremovedStyles (vreport out)) (map (\<lambda>s. (s, Num 0)) STYLES, 0)"
proof -
  from assms obtain g where
    g: "groupIconsByName fs iconDir = Inr g"
    and p: "processVisualEntries r c t (objectEntries g) vInit = Inr out"
    by (auto simp: processVisualDeduplication_def split: sum.splits)
  have wf: "groupsWf g" using g by (rule groupsWf_groupIconsByName)
  then have d: "distinct (map fst (objectEntries g))"
    by (simp add: groupsWf_def distinct_objectEntries)
  have "set (map fst (objectEntries g)) \<inter> set (map fst (vreport vInit)) = {}"
    by (simp add: vInit_def)
  from processVisualEntries_closed [OF p d this] have
    "vreport out = vreportOf r c t (objectEntries g)"
    "vtotalIcons out = length g"
    "iconsWithDuplicates out = length (vreport out)"
    "(removalByStyle out, totalFilesToRemove out) =
           tallyRemovals (vremovedStyles (vreport out)) (map (\<lambda>s. (s, Num 0)) STYLES, 0)"
    by (simp_all add: vInit_def length_objectEntries STYLES_def)
  with g wf show thesis by (rule that)
qed

lemma reportOf_entryD:
  assumes "(n, e) \<in> set (reportOf gh es)"
  shows "\<exists>vs cs. (n, vs) \<in> set es \<and> iconClusters gh vs = Inr cs \<and> cs \<noteq> []
                 \<and> e = clustersDecision cs"
proof -
  from assms obtain x where x: "x \<in> set es" and m: "(n, e) \<in> set (iconDecisions gh x)"
    by (auto simp: reportOf_def)
  obtain n' vs where xe: "x = (n', vs)" by (cases x)
  show ?thesis
  proof (cases "iconClusters gh vs")
    case (Inl err)
    with m show ?thesis by (simp add: iconDecisions_def xe)
  next
    case (Inr cs)
    with m have "cs \<noteq> []" "n = n'" "e = clustersDecision cs"
      by (auto simp: iconDecisions_def xe split: if_splits)
    with x xe Inr show ?thesis by blast
  qed
qed

lemma reportOf_entryI:
  assumes "(n, vs) \<in> set es" and "iconClusters gh vs = Inr cs" and "cs \<noteq> []"
  shows "(n, clustersDecision cs) \<in> set (reportOf gh es)"
proof -
  have "(n, clustersDecision cs) \<in> set (iconDecisions gh (n, vs))"
    using assms(2,3) by (simp add: iconDecisions_def)
  with assms(1) show ?thesis
    unfolding reportOf_def set_concat by (intro UN_I [of "iconDecisions gh (n, vs)"]) simp_all
qed

lemma vreportOf_entryD:
  assumes "(n, d) \<in> set (vreportOf r c t es)"
  shows "\<exists>vs cl. (n, vs) \<in> set es \<and> iconInvolved r c t (n, vs) = Inr cl \<and> cl \<noteq> []
                 \<and> d = clusterDecision cl"
proof -
  from assms obtain x where x: "x \<in> set es" and m: "(n, d) \<in> set (visualDecisions r c t x)"
    by (auto simp: vreportOf_def)
  obtain n' vs where xe: "x = (n', vs)" by (cases x)
  show ?thesis
  proof (cases "iconInvolved r c t (n', vs)")
    case (Inl err)
    with m show ?thesis by (simp add: visualDecisions_def xe)
  next
    case (Inr cl)
    with m have "cl \<noteq> []" "n = n'" "d = clusterDecision cl"
      by (auto simp: visualDecisions_def xe split: if_splits)
    with x xe Inr show ?thesis by blast
  qed
qed

text \<open>What the grouper and the loops give for every entry of a report.\<close>

lemma hash_entry:
  assumes "groupIconsByName fs iconDir = Inr g"
    and "processIconGroups fs iconDir gh = Inr out"
    and "(n, e) \<in> set (hreport out)"
  obtains vs cs where "(n, vs) \<in> set g" and "variantsWf vs"
    and "iconClusters gh vs = Inr cs" and "cs \<noteq> []" and "e = clustersDecision cs"
proof -
  from assms(2) obtain g' where
    g': "groupIconsByName fs iconDir = Inr g'" "groupsWf g'"
    "hreport out = reportOf gh (objectEntries g')"
    by (rule hash_run)
  with assms(1) have gg: "g' = g" by simp
  from assms(3) g'(3) obtain vs cs where
    vs: "(n, vs) \<in> set g" and rest: "iconClusters gh vs = Inr cs" "cs \<noteq> []" "e = clustersDecision cs"
    using reportOf_entryD [of n e gh "objectEntries g"] by (auto simp: set_objectEntries gg)
  from g'(2) vs have "variantsWf vs" unfolding gg by (rule groupsWf_variants)
  with vs rest show thesis using that by blast
qed

lemma visual_entry:
  assumes "groupIconsByName fs iconDir = Inr g"
    and "processVisualDeduplication fs iconDir t r c = Inr out"
    and "(n, d) \<in> set (vreport out)"
  obtains vs cl where "(n, vs) \<in> set g" and "variantsWf vs"
    and "iconInvolved r c t (n, vs) = Inr cl" and "cl \<noteq> []" and "d = clusterDecision cl"
proof -
  from assms(2) obtain g' where
    g': "groupIconsByName fs iconDir = Inr g'" "groupsWf g'"
    "vreport out = vreportOf r c t (objectEntries g')"
    by (rule visual_run)
  with assms(1) have gg: "g' = g" by simp
  from assms(3) g'(3) obtain vs cl where
    vs: "(n, vs) \<in> set g"
    and rest: "iconInvolved r c t (n, vs) = Inr cl" "cl \<noteq> []" "d = clusterDecision cl"
    using vreportOf_entryD [of n d r c t "objectEntries g"] by (auto simp: set_objectEntries gg)
  from g'(2) vs have "variantsWf vs" unfolding gg by (rule groupsWf_variants)
  with vs rest show thesis using that by blast
qed

text \<open>A cluster of the exact deduplicator, and the involved set of the visual one.\<close>

lemma hash_cluster:
  assumes "iconClusters gh vs = Inr cs" and "variantsWf vs" and "c \<in> set cs"
  shows "length c \<ge> 2 \<and> distinct c \<and> set c \<subseteq> set STYLES"
proof -
  from iconClusters_sound [OF assms] obtain h where
    "length c > 1" "c = stylesWithHash gh vs h" by blast
  moreover from assms(2) have "distinct (map fst vs)" "set (map fst vs) \<subseteq> set STYLES"
    by (simp_all add: variantsWf_def)
  ultimately show ?thesis
    using stylesWithHash_subset [of gh vs h] stylesWithHash_distinct [of vs gh h] by auto
qed

lemma visual_cluster:
  assumes "iconInvolved r c t (n, vs) = Inr cl" and "variantsWf vs" and "cl \<noteq> []"
  shows "length cl \<ge> 2 \<and> distinct cl \<and> set cl \<subseteq> set STYLES"
proof -
  from assms(2) have dv: "distinct (map fst vs)" and sv: "set (map fst vs) \<subseteq> set STYLES"
    by (simp_all add: variantsWf_def)
  from iconInvolved_sound [OF assms(1,2)] have
    d: "distinct cl" and s: "set cl = set (involvedStyles c t n (map fst vs))" by simp_all
  from s assms(3) have "involvedStyles c t n (map fst vs) \<noteq> []" by auto
  from involvedStyles_two [OF dv this] s obtain a b where
    "a \<noteq> b" "a \<in> set cl" "b \<in> set cl" by auto
  then have "length cl \<ge> 2"
  proof (cases cl)
    case Nil
    with \<open>a \<in> set cl\<close> show ?thesis by simp
  next
    case (Cons x xs)
    with \<open>a \<noteq> b\<close> \<open>a \<in> set cl\<close> \<open>b \<in> set cl\<close> have "xs \<noteq> []" by auto
    with Cons show ?thesis by (cases xs) simp_all
  qed
  moreover have "set cl \<subseteq> set STYLES"
    using s sv involvedStyles_subset [of c t n "map fst vs"] by auto
  ultimately show ?thesis using d by simp
qed

subsection \<open>Facts about every decision of a report\<close>

lemma clusterRemove_subset: "set (clusterRemove c) \<subseteq> set c"
  by (auto simp: set_clusterRemove)

lemma clusterRemove_nonempty:
  assumes "distinct c" and "length c \<ge> 2"
  shows "clusterRemove c \<noteq> []"
proof -
  from assms(2) have "c \<noteq> []" by auto
  from length_clusterRemove [OF assms(1) this] assms(2) show ?thesis by auto
qed

lemma hash_removed_styles:
  assumes "processIconGroups fs iconDir gh = Inr out"
  shows "set (removedStyles (hreport out)) \<subseteq> set STYLES"
proof
  fix s assume "s \<in> set (removedStyles (hreport out))"
  then obtain n e where ne: "(n, e) \<in> set (hreport out)" and s: "s \<in> set (hremove e)"
    by (auto simp: removedStyles_def)
  from assms obtain g where g: "groupIconsByName fs iconDir = Inr g" by (rule hash_run)
  from g assms ne obtain vs cs where
    wf: "variantsWf vs" and cs: "iconClusters gh vs = Inr cs" and e: "e = clustersDecision cs"
    by (rule hash_entry)
  from s e obtain c where c: "c \<in> set cs" and sc: "s \<in> set (clusterRemove c)"
    by (auto simp: clustersDecision_def)
  from hash_cluster [OF cs wf c] sc clusterRemove_subset [of c] show "s \<in> set STYLES"
    by blast
qed

lemma visual_removed_styles:
  assumes "processVisualDeduplication fs iconDir t r c = Inr out"
  shows "set (vremovedStyles (vreport out)) \<subseteq> set STYLES"
proof
  fix s assume "s \<in> set (vremovedStyles (vreport out))"
  then obtain n d where nd: "(n, d) \<in> set (vreport out)" and s: "s \<in> set (vremove d)"
    by (auto simp: vremovedStyles_def)
  from assms obtain g where g: "groupIconsByName fs iconDir = Inr g" by (rule visual_run)
  from g assms nd obtain vs cl where
    wf: "variantsWf vs" and cl: "iconInvolved r c t (n, vs) = Inr cl" and ne: "cl \<noteq> []"
    and d: "d = clusterDecision cl"
    by (rule visual_entry)
  from s d have "s \<in> set (clusterRemove cl)" by (simp add: clusterDecision_def)
  with visual_cluster [OF cl wf ne] clusterRemove_subset [of cl] show "s \<in> set STYLES"
    by blast
qed

lemma length_removedStyles:
  "length (removedStyles rep) = sum_list (map (\<lambda>p. length (hremove (snd p))) rep)"
  by (simp add: removedStyles_def length_concat comp_def)

lemma length_vremovedStyles:
  "length (vremovedStyles rep) = sum_list (map (\<lambda>p. length (vremove (snd p))) rep)"
  by (simp add: vremovedStyles_def length_concat comp_def)

lemma tallyOk_printedVisual: "tallyOk t n \<Longrightarrow> jsSum (printedVisualTallies t) = Num n"
proof -
  assume a: "tallyOk t n"
  then have "set (map fst t) \<subseteq> set STYLES" by (auto simp: tallyOk_def STYLES_def)
  then have "objectEntries t = t" by (rule objectEntries_styles)
  with a show ?thesis
    by (auto simp: tallyOk_def printedVisualTallies_def jsSum_def)
qed

text \<open>
  C5. In a completed run of either deduplicator, the printed total of removals is the sum
  of the lengths of the remove lists of the report, and the printed per-style tallies are
  numbers that add up to that total.
\<close>

theorem removal_statistics:
  "(processIconGroups fs iconDir getFileHash = Inr out \<longrightarrow>
      totalFilesRemoved out = sum_list (map (\<lambda>p. length (hremove (snd p))) (hreport out))
      \<and> jsSum (printedTallies (removedPerStyle out)) = Num (totalFilesRemoved out))
   \<and> (processVisualDeduplication fs iconDir tempDir render compare = Inr vout \<longrightarrow>
      totalFilesToRemove vout = sum_list (map (\<lambda>p. length (vremove (snd p))) (vreport vout))
      \<and> jsSum (printedVisualTallies (removalByStyle vout)) = Num (totalFilesToRemove vout))"
proof (intro conjI impI)
  assume run: "processIconGroups fs iconDir getFileHash = Inr out"
  from run obtain g where
    n: "totalFilesRemoved out = length (removedStyles (hreport out))"
    and t: "removedPerStyle out =
           foldl (\<lambda>t style. bumpStyle style t) (map (\<lambda>s. (s, Num 0)) STYLES)
             (removedStyles (hreport out))"
    by (rule hash_run)
  show "totalFilesRemoved out = sum_list (map (\<lambda>p. length (hremove (snd p))) (hreport out))"
    by (simp add: n length_removedStyles)
  have "tallyOk (removedPerStyle out) (0 + length (removedStyles (hreport out)))"
    unfolding t using tallyOk_init hash_removed_styles [OF run] by (rule tallyOk_foldl)
  then show "jsSum (printedTallies (removedPerStyle out)) = Num (totalFilesRemoved out)"
    by (simp add: n tallyOk_printed)
next
  assume run: "processVisualDeduplication fs iconDir tempDir render compare = Inr vout"
  from run obtain g where
    t: "(removalByStyle vout, totalFilesToRemove vout) =
           tallyRemovals (vremovedStyles (vreport vout)) (map (\<lambda>s. (s, Num 0)) STYLES, 0)"
    by (rule visual_run)
  from tallyRemovals_ok [OF tallyOk_init visual_removed_styles [OF run]] t have
    ok: "tallyOk (removalByStyle vout) (length (vremovedStyles (vreport vout)))"
    and n: "totalFilesToRemove vout = length (vremovedStyles (vreport vout))"
    by (simp_all add: prod_eq_iff)
  show "totalFilesToRemove vout = sum_list (map (\<lambda>p. length (vremove (snd p))) (vreport vout))"
    by (simp add: n length_vremovedStyles)
  show "jsSum (printedVisualTallies (removalByStyle vout)) = Num (totalFilesToRemove vout)"
    using ok by (simp add: n tallyOk_printedVisual)
qed

theorem removal_statistics_witness:
  "processIconGroups exampleFs ''/r'' exampleHash =
     Inr \<lparr>hreport =
            [(''a'', \<lparr>hkeep = [Some ''outlined''], hremove = [''filled'', ''sharp'', ''round'']\<rparr>),
             (''d'', \<lparr>hkeep = [Some ''outlined'', Some ''round''], hremove = [''filled'', ''sharp'']\<rparr>),
             (''c'', \<lparr>hkeep = [Some ''filled''], hremove = [''round'']\<rparr>)],
          totalIcons = 4, totalIconsAffected = 3, totalFilesRemoved = 6,
          removedPerStyle =
            [(''outlined'', Num 0), (''filled'', Num 2), (''sharp'', Num 2), (''round'', Num 2)]\<rparr>
   \<and> processVisualDeduplication exampleFs ''/r'' ''/t'' exampleRender exampleCompare =
     Inr \<lparr>vreport = [(''a'', \<lparr>vkeep = Some ''outlined'', vremove = [''filled'', ''round'']\<rparr>)],
          vtotalIcons = 4, iconsWithDuplicates = 1, totalFilesToRemove = 2,
          removalByStyle =
            [(''outlined'', Num 0), (''filled'', Num 1), (''sharp'', Num 0), (''round'', Num 1)]\<rparr>
   \<and> jsSum (printedTallies
        [(''outlined'', Num 0), (''filled'', Num 2), (''sharp'', Num 2), (''round'', Num 2)]) = Num 6
   \<and> jsSum (printedVisualTallies
        [(''outlined'', Num 0), (''filled'', Num 1), (''sharp'', Num 0), (''round'', Num 1)]) = Num 2"
proof -
  let ?out = "\<lparr>hreport =
            [(''a'', \<lparr>hkeep = [Some ''outlined''], hremove = [''filled'', ''sharp'', ''round'']\<rparr>),
             (''d'', \<lparr>hkeep = [Some ''outlined'', Some ''round''], hremove = [''filled'', ''sharp'']\<rparr>),
             (''c'', \<lparr>hkeep = [Some ''filled''], hremove = [''round'']\<rparr>)],
          totalIcons = 4, totalIconsAffected = 3, totalFilesRemoved = 6,
          removedPerStyle =
            [(''outlined'', Num 0), (''filled'', Num 2), (''sharp'', Num 2), (''round'', Num 2)]\<rparr>"
  let ?vout = "\<lparr>vreport = [(''a'', \<lparr>vkeep = Some ''outlined'', vremove = [''filled'', ''round'']\<rparr>)],
          vtotalIcons = 4, iconsWithDuplicates = 1, totalFilesToRemove = 2,
          removalByStyle =
            [(''outlined'', Num 0), (''filled'', Num 1), (''sharp'', Num 0), (''round'', Num 1)]\<rparr>"
  have h: "processIconGroups exampleFs ''/r'' exampleHash = Inr ?out"
    by code_simp
  have v: "processVisualDeduplication exampleFs ''/r'' ''/t'' exampleRender exampleCompare = Inr ?vout"
    by code_simp
  from removal_statistics [of exampleFs "''/r''" exampleHash ?out "''/t''" exampleRender
      exampleCompare ?vout] h v
  show ?thesis by simp
qed

text \<open>
  C10. Every entry of the report of a completed run has a keep selection and a remove
  list that are not empty: in the exact deduplicator a non-empty list of kept styles, none
  of them \<open>undefined\<close>; in the visual one a kept style that is not \<open>undefined\<close>.
\<close>

theorem decisions_nonempty:
  "(processIconGroups fs iconDir getFileHash = Inr out \<longrightarrow>
      list_all (\<lambda>p. hkeep (snd p) \<noteq> [] \<and> list_all (\<lambda>k. k \<noteq> None) (hkeep (snd p))
                  \<and> hremove (snd p) \<noteq> []) (hreport out))
   \<and> (processVisualDeduplication fs iconDir tempDir render compare = Inr vout \<longrightarrow>
      list_all (\<lambda>p. vkeep (snd p) \<noteq> None \<and> vremove (snd p) \<noteq> []) (vreport vout))"
proof (intro conjI impI)
  assume run: "processIconGroups fs iconDir getFileHash = Inr out"
  from run obtain g where g: "groupIconsByName fs iconDir = Inr g" by (rule hash_run)
  show "list_all (\<lambda>p. hkeep (snd p) \<noteq> [] \<and> list_all (\<lambda>k. k \<noteq> None) (hkeep (snd p))
                  \<and> hremove (snd p) \<noteq> []) (hreport out)"
    unfolding list_all_iff
  proof
    fix p assume p: "p \<in> set (hreport out)"
    obtain n e where pe: "p = (n, e)" by (cases p)
    from g run p [unfolded pe] obtain vs cs where
      wf: "variantsWf vs" and cs: "iconClusters getFileHash vs = Inr cs" and ne: "cs \<noteq> []"
      and e: "e = clustersDecision cs"
      by (rule hash_entry)
    have each: "clusterKeep c \<noteq> None \<and> clusterRemove c \<noteq> []" if "c \<in> set cs" for c
    proof -
      from hash_cluster [OF cs wf that] have l: "length c \<ge> 2" and d: "distinct c" by simp_all
      from l have "c \<noteq> []" by auto
      then have "clusterKeep c \<noteq> None" using clusterKeep_nonempty by fastforce
      with d l show ?thesis by (simp add: clusterRemove_nonempty)
    qed
    from ne obtain c0 where c0: "c0 \<in> set cs" by (cases cs) auto
    have "hkeep e \<noteq> []" using ne by (simp add: e clustersDecision_def)
    moreover have "\<forall>k\<in>set (hkeep e). k \<noteq> None"
      using each by (auto simp: e clustersDecision_def)
    moreover have "hremove e \<noteq> []"
      using each [OF c0] c0 by (auto simp: e clustersDecision_def)
    ultimately show "hkeep (snd p) \<noteq> [] \<and> (\<forall>k\<in>set (hkeep (snd p)). k \<noteq> None)
                     \<and> hremove (snd p) \<noteq> []"
      by (simp add: pe)
  qed
next
  assume run: "processVisualDeduplication fs iconDir tempDir render compare = Inr vout"
  from run obtain g where g: "groupIconsByName fs iconDir = Inr g" by (rule visual_run)
  show "list_all (\<lambda>p. vkeep (snd p) \<noteq> None \<and> vremove (snd p) \<noteq> []) (vreport vout)"
    unfolding list_all_iff
  proof
    fix p assume p: "p \<in> set (vreport vout)"
    obtain n d where pd: "p = (n, d)" by (cases p)
    from g run p [unfolded pd] obtain vs cl where
      wf: "variantsWf vs" and cl: "iconInvolved render compare tempDir (n, vs) = Inr cl"
      and ne: "cl \<noteq> []" and d: "d = clusterDecision cl"
      by (rule visual_entry)
    from visual_cluster [OF cl wf ne] have l: "length cl \<ge> 2" and dc: "distinct cl"
      by simp_all
    have "clusterKeep cl \<noteq> None" using ne clusterKeep_nonempty by fastforce
    moreover have "clusterRemove cl \<noteq> []" using dc l by (rule clusterRemove_nonempty)
    ultimately show "vkeep (snd p) \<noteq> None \<and> vremove (snd p) \<noteq> []"
      by (simp add: pd d clusterDecision_def)
  qed
qed

theorem decisions_nonempty_witness:
  "processIconGroups exampleFs ''/r'' exampleHash =
     Inr \<lparr>hreport =
            [(''a'', \<lparr>hkeep = [Some ''outlined''], hremove = [''filled'', ''sharp'', ''round'']\<rparr>),
             (''d'', \<lparr>hkeep = [Some ''outlined'', Some ''round''], hremove = [''filled'', ''sharp'']\<rparr>),
             (''c'', \<lparr>hkeep = [Some ''filled''], hremove = [''round'']\<rparr>)],
          totalIcons = 4, totalIconsAffected = 3, totalFilesRemoved = 6,
          removedPerStyle =
            [(''outlined'', Num 0), (''filled'', Num 2), (''sharp'', Num 2), (''round'', Num 2)]\<rparr>
   \<and> processVisualDeduplication exampleFs ''/r'' ''/t'' exampleRender exampleCompare =
     Inr \<lparr>vreport = [(''a'', \<lparr>vkeep = Some ''outlined'', vremove = [''filled'', ''round'']\<rparr>)],
          vtotalIcons = 4, iconsWithDuplicates = 1, totalFilesToRemove = 2,
          removalByStyle =
            [(''outlined'', Num 0), (''filled'', Num 1), (''sharp'', Num 0), (''round'', Num 1)]\<rparr>
   \<and> list_all (\<lambda>p. hkeep (snd p) \<noteq> [] \<and> list_all (\<lambda>k. k \<noteq> None) (hkeep (snd p))
                  \<and> hremove (snd p) \<noteq> [])
        [(''a'', \<lparr>hkeep = [Some ''outlined''], hremove = [''filled'', ''sharp'', ''round'']\<rparr>),
         (''d'', \<lparr>hkeep = [Some ''outlined'', Some ''round''], hremove = [''filled'', ''sharp'']\<rparr>),
         (''c'', \<lparr>hkeep = [Some ''filled''], hremove = [''round'']\<rparr>)]
   \<and> list_all (\<lambda>p. vkeep (snd p) \<noteq> None \<and> vremove (snd p) \<noteq> [])
        [(''a'', \<lparr>vkeep = Some ''outlined'', vremove = [''filled'', ''round'']\<rparr>)]"
proof -
  let ?out = "\<lparr>hreport =
            [(''a'', \<lparr>hkeep = [Some ''outlined''], hremove = [''filled'', ''sharp'', ''round'']\<rparr>),
             (''d'', \<lparr>hkeep = [Some ''outlined'', Some ''round''], hremove = [''filled'', ''sharp'']\<rparr>),
             (''c'', \<lparr>hkeep = [Some ''filled''], hremove = [''round'']\<rparr>)],
          totalIcons = 4, totalIconsAffected = 3, totalFilesRemoved = 6,
          removedPerStyle =
            [(''outlined'', Num 0), (''filled'', Num 2), (''sharp'', Num 2), (''round'', Num 2)]\<rparr>"
  let ?vout = "\<lparr>vreport = [(''a'', \<lparr>vkeep = Some ''outlined'', vremove = [''filled'', ''round'']\<rparr>)],
          vtotalIcons = 4, iconsWithDuplicates = 1, totalFilesToRemove = 2,
          removalByStyle =
            [(''outlined'', Num 0), (''filled'', Num 1), (''sharp'', Num 0), (''round'', Num 1)]\<rparr>"
  have h: "processIconGroups exampleFs ''/r'' exampleHash = Inr ?out"
    by code_simp
  have v: "processVisualDeduplication exampleFs ''/r'' ''/t'' exampleRender exampleCompare = Inr ?vout"
    by code_simp
  from decisions_nonempty [of exampleFs "''/r''" exampleHash ?out "''/t''" exampleRender
      exampleCompare ?vout] h v
  show ?thesis by simp
qed

subsection \<open>Every icon of the Group is decided\<close>

lemma processEntries_clusters:
  "processEntries gh es st = Inr st' \<Longrightarrow> (n, vs) \<in> set es \<Longrightarrow> \<exists>cs. iconClusters gh vs = Inr cs"
proof (induction es arbitrary: st)
  case Nil
  then show ?case by simp
next
  case (Cons e es)
  from Cons.prems(1) obtain st1 where
    s1: "processIcon gh st e = Inr st1" and s2: "processEntries gh es st1 = Inr st'"
    by (auto split: sum.splits)
  show ?case
  proof (cases "e = (n, vs)")
    case True
    show ?thesis
    proof (cases "iconClusters gh vs")
      case (Inl err)
      with s1 True show ?thesis by (simp add: processIcon_def)
    next
      case (Inr cs)
      then show ?thesis by blast
    qed
  next
    case False
    with Cons.prems(2) have "(n, vs) \<in> set es" by simp
    with s2 show ?thesis by (rule Cons.IH)
  qed
qed

lemma processVisualIcon_involved_ok:
  "processVisualIcon r c t st e = Inr st1 \<Longrightarrow> \<exists>cl. iconInvolved r c t e = Inr cl"
  by (auto simp: processVisualIcon_def iconInvolved_def Let_def split: sum.splits if_splits)

lemma processVisualEntries_involved:
  "processVisualEntries r c t es st = Inr st' \<Longrightarrow> e \<in> set es
    \<Longrightarrow> \<exists>cl. iconInvolved r c t e = Inr cl"
proof (induction es arbitrary: st)
  case Nil
  then show ?case by simp
next
  case (Cons x es)
  from Cons.prems(1) obtain st1 where
    s1: "processVisualIcon r c t st x = Inr st1"
    and s2: "processVisualEntries r c t es st1 = Inr st'"
    by (auto split: sum.splits)
  show ?case
  proof (cases "e = x")
    case True
    with s1 show ?thesis by (simp add: processVisualIcon_involved_ok)
  next
    case False
    with Cons.prems(2) have "e \<in> set es" by simp
    with s2 show ?thesis by (rule Cons.IH)
  qed
qed

lemma distinct_reportOf: "distinct (map fst es) \<Longrightarrow> distinct (map fst (reportOf gh es))"
proof (induction es)
  case Nil
  show ?case by (simp add: reportOf_def)
next
  case (Cons e es)
  have k: "set (map fst (iconDecisions gh e)) \<subseteq> {fst e}"
    by (auto simp: iconDecisions_def split: sum.splits)
  have d: "distinct (map fst (iconDecisions gh e))"
    by (auto simp: iconDecisions_def split: sum.splits)
  from Cons.prems have "fst e \<notin> set (map fst es)" by simp
  with reportOf_keys [of gh es] have "fst e \<notin> set (map fst (reportOf gh es))" by blast
  with k have "set (map fst (iconDecisions gh e)) \<inter> set (map fst (reportOf gh es)) = {}"
    by blast
  with d Cons show ?case
    by (simp add: reportOf_Cons)
qed

lemma map_of_reportOf:
  assumes d: "distinct (map fst es)" and m: "(n, vs) \<in> set es"
    and cs: "iconClusters gh vs = Inr cs"
  shows "map_of (reportOf gh es) n = (if cs = [] then None else Some (clustersDecision cs))"
proof (cases "cs = []")
  case True
  have "n \<notin> fst ` set (reportOf gh es)"
  proof
    assume "n \<in> fst ` set (reportOf gh es)"
    then obtain e where "(n, e) \<in> set (reportOf gh es)" by auto
    from reportOf_entryD [OF this] obtain vs' cs' where
      m': "(n, vs') \<in> set es" and c': "iconClusters gh vs' = Inr cs'" "cs' \<noteq> []"
      by blast
    from d m m' have "vs' = vs" by (meson eq_key_imp_eq_value)
    with c' cs True show False by simp
  qed
  then have "map_of (reportOf gh es) n = None"
    by (simp add: map_of_eq_None_iff)
  with True show ?thesis by simp
next
  case False
  from reportOf_entryI [OF m cs False] distinct_reportOf [OF d, of gh]
  have "map_of (reportOf gh es) n = Some (clustersDecision cs)" by simp
  with False show ?thesis by simp
qed

lemma vreportOf_entryI:
  assumes "(n, vs) \<in> set es" and "iconInvolved r c t (n, vs) = Inr cl" and "cl \<noteq> []"
  shows "(n, clusterDecision cl) \<in> set (vreportOf r c t es)"
proof -
  have "(n, clusterDecision cl) \<in> set (visualDecisions r c t (n, vs))"
    using assms(2,3) by (simp add: visualDecisions_def)
  with assms(1) show ?thesis
    unfolding vreportOf_def set_concat
    by (intro UN_I [of "visualDecisions r c t (n, vs)"]) simp_all
qed

lemma distinct_vreportOf: "distinct (map fst es) \<Longrightarrow> distinct (map fst (vreportOf r c t es))"
proof (induction es)
  case Nil
  show ?case by (simp add: vreportOf_def)
next
  case (Cons e es)
  have k: "set (map fst (visualDecisions r c t e)) \<subseteq> {fst e}"
    by (auto simp: visualDecisions_def split: sum.splits)
  have d: "distinct (map fst (visualDecisions r c t e))"
    by (auto simp: visualDecisions_def split: sum.splits)
  from Cons.prems have "fst e \<notin> set (map fst es)" by simp
  with vreportOf_keys [of r c t es] have "fst e \<notin> set (map fst (vreportOf r c t es))" by blast
  with k have "set (map fst (visualDecisions r c t e)) \<inter> set (map fst (vreportOf r c t es)) = {}"
    by blast
  with d Cons show ?case
    by (simp add: vreportOf_Cons)
qed

lemma map_of_vreportOf:
  assumes d: "distinct (map fst es)" and m: "(n, vs) \<in> set es"
    and cl: "iconInvolved r c t (n, vs) = Inr cl"
  shows "map_of (vreportOf r c t es) n = (if cl = [] then None else Some (clusterDecision cl))"
proof (cases "cl = []")
  case True
  have "n \<notin> fst ` set (vreportOf r c t es)"
  proof
    assume "n \<in> fst ` set (vreportOf r c t es)"
    then obtain e where "(n, e) \<in> set (vreportOf r c t es)" by auto
    from vreportOf_entryD [OF this] obtain vs' cl' where
      m': "(n, vs') \<in> set es" and c': "iconInvolved r c t (n, vs') = Inr cl'" "cl' \<noteq> []"
      by blast
    from d m m' have "vs' = vs" by (meson eq_key_imp_eq_value)
    with c' cl True show False by simp
  qed
  then have "map_of (vreportOf r c t es) n = None"
    by (simp add: map_of_eq_None_iff)
  with True show ?thesis by simp
next
  case False
  from vreportOf_entryI [OF m cl False] distinct_vreportOf [OF d, of r c t]
  have "map_of (vreportOf r c t es) n = Some (clusterDecision cl)" by simp
  with False show ?thesis by simp
qed

text \<open>What a completed run gives for every icon of the Group.\<close>

lemma hash_icon:
  assumes "groupIconsByName fs iconDir = Inr g"
    and "processIconGroups fs iconDir gh = Inr out"
    and "(n, vs) \<in> set g"
  obtains cs where "variantsWf vs" and "iconClusters gh vs = Inr cs"
    and "map_of (hreport out) n = (if cs = [] then None else Some (clustersDecision cs))"
proof -
  from assms(2) obtain g' where
    g': "groupIconsByName fs iconDir = Inr g'" and wf: "groupsWf g'"
    and p: "processEntries gh (objectEntries g') hInit = Inr out"
    and rep: "hreport out = reportOf gh (objectEntries g')"
  proof -
    from assms(2) obtain g' where
      a: "groupIconsByName fs iconDir = Inr g'"
      and b: "processEntries gh (objectEntries g') hInit = Inr out"
      by (auto simp: processIconGroups_def split: sum.splits)
    from assms(2) obtain g'' where
      c: "groupIconsByName fs iconDir = Inr g''" "groupsWf g''"
      "hreport out = reportOf gh (objectEntries g'')"
      by (rule hash_run)
    from a c(1) have "g'' = g'" by simp
    with a b c that show thesis by blast
  qed
  from g' assms(1) have gg: "g' = g" by simp
  have m: "(n, vs) \<in> set (objectEntries g)"
    using assms(3) by (simp add: set_objectEntries)
  have d: "distinct (map fst (objectEntries g))"
    using wf by (simp add: gg groupsWf_def distinct_objectEntries)
  from processEntries_clusters [OF p [unfolded gg] m] obtain cs where
    cs: "iconClusters gh vs = Inr cs" by blast
  from wf assms(3) have "variantsWf vs" unfolding gg by (rule groupsWf_variants)
  moreover note cs
  moreover have "map_of (hreport out) n = (if cs = [] then None else Some (clustersDecision cs))"
    unfolding rep gg using d m cs by (rule map_of_reportOf)
  ultimately show thesis by (rule that)
qed

lemma visual_icon:
  assumes "groupIconsByName fs iconDir = Inr g"
    and "processVisualDeduplication fs iconDir t r c = Inr out"
    and "(n, vs) \<in> set g"
  obtains cl where "variantsWf vs" and "iconInvolved r c t (n, vs) = Inr cl"
    and "map_of (vreport out) n = (if cl = [] then None else Some (clusterDecision cl))"
proof -
  from assms(2) obtain g' where
    g': "groupIconsByName fs iconDir = Inr g'" and wf: "groupsWf g'"
    and p: "processVisualEntries r c t (objectEntries g') vInit = Inr out"
    and rep: "vreport out = vreportOf r c t (objectEntries g')"
  proof -
    from assms(2) obtain g' where
      a: "groupIconsByName fs iconDir = Inr g'"
      and b: "processVisualEntries r c t (objectEntries g') vInit = Inr out"
      by (auto simp: processVisualDeduplication_def split: sum.splits)
    from assms(2) obtain g'' where
      c: "groupIconsByName fs iconDir = Inr g''" "groupsWf g''"
      "vreport out = vreportOf r c t (objectEntries g'')"
      by (rule visual_run)
    from a c(1) have "g'' = g'" by simp
    with a b c that show thesis by blast
  qed
  from g' assms(1) have gg: "g' = g" by simp
  have m: "(n, vs) \<in> set (objectEntries g)"
    using assms(3) by (simp add: set_objectEntries)
  have d: "distinct (map fst (objectEntries g))"
    using wf by (simp add: gg groupsWf_def distinct_objectEntries)
  from processVisualEntries_involved [OF p [unfolded gg] m] obtain cl where
    cl: "iconInvolved r c t (n, vs) = Inr cl" by blast
  from wf assms(3) have "variantsWf vs" unfolding gg by (rule groupsWf_variants)
  moreover note cl
  moreover have "map_of (vreport out) n = (if cl = [] then None else Some (clusterDecision cl))"
    unfolding rep gg using d m cl by (rule map_of_vreportOf)
  ultimately show thesis by (rule that)
qed

text \<open>Every digest shared by two styles or more gives a cluster.\<close>

lemma iconClusters_complete:
  assumes "iconClusters gh vs = Inr cs" and "variantsWf vs"
    and "length (stylesWithHash gh vs h) \<ge> 2"
  shows "stylesWithHash gh vs h \<in> set cs"
proof -
  from assms(2) have dv: "distinct (map fst vs)" and sv: "set (map fst vs) \<subseteq> set STYLES"
    by (simp_all add: variantsWf_def)
  have ov: "objectEntries vs = vs" using sv by (rule objectEntries_styles)
  from assms(1) obtain hs where
    hs: "computeHashes gh vs [] = Inr hs"
    and cs: "cs = duplicateClusters (buildHashMap (objectEntries hs) [])"
    by (auto simp: iconClusters_def ov split: sum.splits)
  from computeHashes_keys [OF hs] sv have "set (map fst hs) \<subseteq> set STYLES" by simp
  then have oh: "objectEntries hs = hs" by (rule objectEntries_styles)
  from computeHashes_closed [OF hs] dv have
    la: "list_all2 (\<lambda>e h. fst h = fst e \<and> gh (snd e) = Some (snd h)) vs hs"
    by auto
  let ?c = "stylesWithHash gh vs h"
  have new: "map fst (filter (\<lambda>p. snd p = h) hs) = ?c"
    using la by (rule filter_hash_list_all2)
  from assms(3) have ne: "?c \<noteq> []" by auto
  have "map_of (buildHashMap hs []) h = Some ?c"
    using ne by (simp add: map_of_buildHashMap new Let_def)
  then have "(h, ?c) \<in> set (buildHashMap hs [])" by (rule map_of_SomeD)
  then have "?c \<in> set (map snd (objectEntries (buildHashMap hs [])))"
    by (force simp: set_objectEntries)
  with assms(3) show ?thesis
    by (simp add: cs oh duplicateClusters_def)
qed


subsection \<open>Every entry follows from the Group\<close>

lemma groupsWf_map_of: "groupsWf g \<Longrightarrow> (n, vs) \<in> set g \<Longrightarrow> map_of g n = Some vs"
  by (simp add: groupsWf_def)

lemma hash_entries_ok:
  assumes g: "groupIconsByName fs iconDir = Inr g"
    and run: "processIconGroups fs iconDir gh = Inr out"
    and P: "\<And>vs cs c. variantsWf vs \<Longrightarrow> iconClusters gh vs = Inr cs \<Longrightarrow> c \<in> set cs \<Longrightarrow> P vs c"
  shows "list_all (hashEntryOk P g gh) (hreport out)"
  unfolding list_all_iff
proof
  fix p assume p: "p \<in> set (hreport out)"
  obtain n e where pe: "p = (n, e)" by (cases p)
  from g run p [unfolded pe] obtain vs cs where
    m: "(n, vs) \<in> set g" and wf: "variantsWf vs" and cs: "iconClusters gh vs = Inr cs"
    and e: "e = clustersDecision cs"
    by (rule hash_entry)
  from g have "groupsWf g" by (rule groupsWf_groupIconsByName)
  then have "map_of g n = Some vs" using m by (rule groupsWf_map_of)
  moreover have "list_all (P vs) cs"
    unfolding list_all_iff using P [OF wf cs] by blast
  ultimately show "hashEntryOk P g gh p"
    by (simp add: hashEntryOk_def pe cs e)
qed

lemma visual_entries_ok:
  assumes g: "groupIconsByName fs iconDir = Inr g"
    and run: "processVisualDeduplication fs iconDir t r c = Inr out"
    and P: "\<And>n vs cl. variantsWf vs \<Longrightarrow> iconInvolved r c t (n, vs) = Inr cl \<Longrightarrow> cl \<noteq> []
              \<Longrightarrow> P n vs cl"
  shows "list_all (visualEntryOk P g r c t) (vreport out)"
  unfolding list_all_iff
proof
  fix p assume p: "p \<in> set (vreport out)"
  obtain n d where pd: "p = (n, d)" by (cases p)
  from g run p [unfolded pd] obtain vs cl where
    m: "(n, vs) \<in> set g" and wf: "variantsWf vs" and cl: "iconInvolved r c t (n, vs) = Inr cl"
    and ne: "cl \<noteq> []" and d: "d = clusterDecision cl"
    by (rule visual_entry)
  from g have "groupsWf g" by (rule groupsWf_groupIconsByName)
  then have "map_of g n = Some vs" using m by (rule groupsWf_map_of)
  with P [OF wf cl ne] show "visualEntryOk P g r c t p"
    by (simp add: visualEntryOk_def pd cl d)
qed

lemma clusterKeep_spec: "c \<noteq> [] \<Longrightarrow> clusterKeep c = Some (specKeep c)"
  by (simp add: specKeep_def clusterKeep_outlined clusterKeep_min)

lemma selectionRule_holds:
  assumes "distinct c" and "length c \<ge> 2"
  shows "selectionRule c"
proof -
  from assms(2) have ne: "c \<noteq> []" by auto
  have k: "clusterKeep c = Some (specKeep c)" using ne by (rule clusterKeep_spec)
  have "distinct (clusterRemove c)"
    using assms(1) by (simp add: clusterRemove_filter)
  moreover have "set (clusterRemove c) = set c - {specKeep c}"
    by (auto simp: set_clusterRemove k)
  ultimately show ?thesis
    using assms(2) k by (simp add: selectionRule_def)
qed

lemma hashIconDecided_run:
  assumes g: "groupIconsByName fs iconDir = Inr g"
    and run: "processIconGroups fs iconDir gh = Inr out"
  shows "list_all (hashIconDecided gh (hreport out)) g"
  unfolding list_all_iff
proof
  fix p assume p: "p \<in> set g"
  obtain n vs where pe: "p = (n, vs)" by (cases p)
  from g run p [unfolded pe] obtain cs where
    wf: "variantsWf vs" and cs: "iconClusters gh vs = Inr cs"
    and m: "map_of (hreport out) n = (if cs = [] then None else Some (clustersDecision cs))"
    by (rule hash_icon)
  have "selectionRule c" if "c \<in> set cs" for c
  proof -
    from cs wf that have "length c \<ge> 2 \<and> distinct c \<and> set c \<subseteq> set STYLES"
      by (rule hash_cluster)
    then show ?thesis by (simp add: selectionRule_holds)
  qed
  then have r: "list_all selectionRule cs" by (simp add: list_all_iff)
  have "length (stylesWithHash gh vs h) < 2 \<or> stylesWithHash gh vs h \<in> set cs" for h
  proof (cases "length (stylesWithHash gh vs h) < 2")
    case True
    then show ?thesis by simp
  next
    case False
    then have "length (stylesWithHash gh vs h) \<ge> 2" by simp
    with cs wf have "stylesWithHash gh vs h \<in> set cs" by (rule iconClusters_complete)
    then show ?thesis by simp
  qed
  then have c: "list_all (\<lambda>h. length (stylesWithHash gh vs h) < 2
                              \<or> stylesWithHash gh vs h \<in> set cs) (hashesOf gh vs)"
    by (simp add: list_all_iff)
  from m r c show "hashIconDecided gh (hreport out) p"
    by (simp add: hashIconDecided_def pe cs)
qed

lemma visualIconDecided_run:
  assumes g: "groupIconsByName fs iconDir = Inr g"
    and run: "processVisualDeduplication fs iconDir t r c = Inr out"
  shows "list_all (visualIconDecided r c t (vreport out)) g"
  unfolding list_all_iff
proof
  fix p assume p: "p \<in> set g"
  obtain n vs where pe: "p = (n, vs)" by (cases p)
  from g run p [unfolded pe] obtain cl where
    wf: "variantsWf vs" and cl: "iconInvolved r c t (n, vs) = Inr cl"
    and m: "map_of (vreport out) n = (if cl = [] then None else Some (clusterDecision cl))"
    by (rule visual_icon)
  from iconInvolved_sound [OF cl wf] have
    s: "set cl = set (involvedStyles c t n (map fst vs))" by simp
  have "cl = [] \<or> selectionRule cl"
  proof (cases "cl = []")
    case True
    then show ?thesis by simp
  next
    case False
    with cl wf have "length cl \<ge> 2 \<and> distinct cl \<and> set cl \<subseteq> set STYLES"
      by (rule visual_cluster)
    then show ?thesis by (simp add: selectionRule_holds)
  qed
  with m s show "visualIconDecided r c t (vreport out) p"
    by (simp add: visualIconDecided_def pe cl)
qed

text \<open>
  C1. In a completed run of either deduplicator, every icon of the Group that has a cluster
  has its entry in the report, and an icon without a cluster has none (exact: the clusters
  are the classes of equal digest with two styles or more, each of them; visual: the
  cluster is the set of styles that a pair judged equal touches). Every entry of the report
  is the decision of the clusters of its icon, and for every such cluster the keep is
  "outlined" if the cluster has it and the least style name otherwise, and the remove list
  holds each other member of the cluster once and nothing else.
\<close>

theorem keep_selection:
  assumes "groupIconsByName fs iconDir = Inr g"
  shows "(processIconGroups fs iconDir getFileHash = Inr out \<longrightarrow>
            list_all (hashIconDecided getFileHash (hreport out)) g
            \<and> list_all (hashEntryOk (\<lambda>vs. selectionRule) g getFileHash) (hreport out))
       \<and> (processVisualDeduplication fs iconDir tempDir render compare = Inr vout \<longrightarrow>
            list_all (visualIconDecided render compare tempDir (vreport vout)) g
            \<and> list_all (visualEntryOk (\<lambda>n vs. selectionRule) g render compare tempDir)
                (vreport vout))"
proof (intro conjI impI)
  assume run: "processIconGroups fs iconDir getFileHash = Inr out"
  from assms run show "list_all (hashIconDecided getFileHash (hreport out)) g"
    by (rule hashIconDecided_run)
  show "list_all (hashEntryOk (\<lambda>vs. selectionRule) g getFileHash) (hreport out)"
    using assms run
  proof (rule hash_entries_ok)
    fix vs cs c
    assume "variantsWf vs" "iconClusters getFileHash vs = Inr cs" "c \<in> set cs"
    then have "length c \<ge> 2 \<and> distinct c \<and> set c \<subseteq> set STYLES"
      by (intro hash_cluster)
    then show "selectionRule c" by (simp add: selectionRule_holds)
  qed
next
  assume run: "processVisualDeduplication fs iconDir tempDir render compare = Inr vout"
  from assms run show "list_all (visualIconDecided render compare tempDir (vreport vout)) g"
    by (rule visualIconDecided_run)
  show "list_all (visualEntryOk (\<lambda>n vs. selectionRule) g render compare tempDir) (vreport vout)"
    using assms run
  proof (rule visual_entries_ok)
    fix n vs cl
    assume "variantsWf vs" "iconInvolved render compare tempDir (n, vs) = Inr cl" "cl \<noteq> []"
    then have "length cl \<ge> 2 \<and> distinct cl \<and> set cl \<subseteq> set STYLES"
      by (intro visual_cluster)
    then show "selectionRule cl" by (simp add: selectionRule_holds)
  qed
qed

theorem keep_selection_witness:
  "groupIconsByName exampleFs ''/r'' = Inr exampleGroups
   \<and> processIconGroups exampleFs ''/r'' exampleHash = Inr exampleHashOut
   \<and> processVisualDeduplication exampleFs ''/r'' ''/t'' exampleRender exampleCompare
       = Inr exampleVisualOut
   \<and> list_all (hashIconDecided exampleHash (hreport exampleHashOut)) exampleGroups
   \<and> list_all (hashEntryOk (\<lambda>vs. selectionRule) exampleGroups exampleHash)
       (hreport exampleHashOut)
   \<and> list_all (visualIconDecided exampleRender exampleCompare ''/t'' (vreport exampleVisualOut))
       exampleGroups
   \<and> list_all (visualEntryOk (\<lambda>n vs. selectionRule) exampleGroups exampleRender exampleCompare
         ''/t'') (vreport exampleVisualOut)
   \<and> map fst exampleGroups = [''a'', ''b'', ''d'', ''c'']
   \<and> hreport exampleHashOut =
       [(''a'', \<lparr>hkeep = [Some ''outlined''], hremove = [''filled'', ''sharp'', ''round'']\<rparr>),
        (''d'', \<lparr>hkeep = [Some ''outlined'', Some ''round''], hremove = [''filled'', ''sharp'']\<rparr>),
        (''c'', \<lparr>hkeep = [Some ''filled''], hremove = [''round'']\<rparr>)]
   \<and> vreport exampleVisualOut =
       [(''a'', \<lparr>vkeep = Some ''outlined'', vremove = [''filled'', ''round'']\<rparr>)]"
proof -
  have g: "groupIconsByName exampleFs ''/r'' = Inr exampleGroups"
    by code_simp
  have h: "processIconGroups exampleFs ''/r'' exampleHash = Inr exampleHashOut"
    by code_simp
  have v: "processVisualDeduplication exampleFs ''/r'' ''/t'' exampleRender exampleCompare
             = Inr exampleVisualOut"
    by code_simp
  have k: "map fst exampleGroups = [''a'', ''b'', ''d'', ''c'']"
    by (simp add: exampleGroups_def)
  from keep_selection [OF g, of exampleHash exampleHashOut "''/t''" exampleRender exampleCompare
      exampleVisualOut] g h v k
  show ?thesis by (simp add: exampleHashOut_def exampleVisualOut_def)
qed

subsection \<open>The keep is apart from the remove list\<close>

lemma keepApart_cluster: "c \<noteq> [] \<Longrightarrow> keepApart (clusterKeep c) (clusterRemove c) (set c)"
proof -
  assume ne: "c \<noteq> []"
  then obtain k where k: "clusterKeep c = Some k" using clusterKeep_nonempty by blast
  then have "k \<in> set c" by (rule clusterKeep_mem)
  then show ?thesis
    by (auto simp: keepApart_def k set_clusterRemove)
qed

lemma stylesWithHash_hash:
  "stylesWithHash gh vs h \<noteq> [] \<Longrightarrow> h \<in> set (hashesOf gh vs)"
  by (induction vs)
    (auto simp: stylesWithHash_def hashesOf_def List.map_filter_simps split: option.splits if_splits)

lemma stylesWithHash_same:
  assumes "distinct (map fst vs)"
    and "s \<in> set (stylesWithHash gh vs h1)" and "s \<in> set (stylesWithHash gh vs h2)"
  shows "h1 = h2"
proof -
  from assms(2) obtain p1 where p1: "(s, p1) \<in> set vs" "gh p1 = Some h1"
    by (auto simp: stylesWithHash_def)
  from assms(3) obtain p2 where p2: "(s, p2) \<in> set vs" "gh p2 = Some h2"
    by (auto simp: stylesWithHash_def)
  from assms(1) p1(1) p2(1) have "p1 = p2"
    by (meson eq_key_imp_eq_value)
  with p1(2) p2(2) show ?thesis by simp
qed

lemma keepsNotRemoved_clusters:
  assumes wf: "variantsWf vs" and cs: "iconClusters gh vs = Inr cs"
  shows "keepsNotRemoved (n, clustersDecision cs)"
proof -
  from wf have dv: "distinct (map fst vs)" by (simp add: variantsWf_def)
  have "k \<noteq> None \<and> k \<notin> set (map Some (concat (map clusterRemove cs)))"
    if "k \<in> set (map clusterKeep cs)" for k
  proof -
    from that obtain c1 where c1: "c1 \<in> set cs" and k: "k = clusterKeep c1" by auto
    from iconClusters_sound [OF cs wf c1] obtain h1 where
      l1: "length c1 > 1" and h1: "c1 = stylesWithHash gh vs h1" by blast
    from l1 have ne1: "c1 \<noteq> []" by auto
    then obtain s where s: "clusterKeep c1 = Some s" using clusterKeep_nonempty by blast
    then have s1: "s \<in> set c1" by (rule clusterKeep_mem)
    have "s \<notin> set (clusterRemove c2)" if c2: "c2 \<in> set cs" for c2
    proof
      assume r: "s \<in> set (clusterRemove c2)"
      then have s2: "s \<in> set c2" using clusterRemove_subset by blast
      from iconClusters_sound [OF cs wf c2] obtain h2 where h2: "c2 = stylesWithHash gh vs h2"
        by blast
      from stylesWithHash_same [OF dv s1 [unfolded h1] s2 [unfolded h2]] have "c1 = c2"
        by (simp add: h1 h2)
      with r s show False by (simp add: set_clusterRemove)
    qed
    then show ?thesis by (auto simp: k s)
  qed
  then show ?thesis
    by (simp add: keepsNotRemoved_def clustersDecision_def list_all_iff)
qed

text \<open>
  C4. In a completed run, the kept style of a decision is not in its remove list, and the
  two together are the cluster: in the exact report, for each cluster of an entry, the
  styles of the icon whose files have one digest, and no kept style of an entry is in
  the remove list of that entry; in the visual report, the involved set, that is the
  styles of the icon that a pair judged equal by the oracle touches.
\<close>

theorem keep_apart_from_remove:
  assumes "groupIconsByName fs iconDir = Inr g"
  shows "(processIconGroups fs iconDir getFileHash = Inr out \<longrightarrow>
            list_all (hashEntryOk (hashClusterApart getFileHash) g getFileHash) (hreport out)
            \<and> list_all keepsNotRemoved (hreport out))
       \<and> (processVisualDeduplication fs iconDir tempDir render compare = Inr vout \<longrightarrow>
            list_all (visualEntryOk (visualClusterApart compare tempDir) g render compare tempDir)
              (vreport vout))"
proof (intro conjI impI)
  assume run: "processIconGroups fs iconDir getFileHash = Inr out"
  show "list_all (hashEntryOk (hashClusterApart getFileHash) g getFileHash) (hreport out)"
    using assms run
  proof (rule hash_entries_ok)
    fix vs cs c
    assume a: "iconClusters getFileHash vs = Inr cs" "variantsWf vs" "c \<in> set cs"
    from iconClusters_sound [OF a] obtain h where
      l: "length c > 1" and h: "c = stylesWithHash getFileHash vs h" by blast
    from l have ne: "c \<noteq> []" by auto
    then have "h \<in> set (hashesOf getFileHash vs)"
      unfolding h by (rule stylesWithHash_hash)
    with h have "list_ex (\<lambda>h. c = stylesWithHash getFileHash vs h) (hashesOf getFileHash vs)"
      unfolding list_ex_iff by blast
    with keepApart_cluster [OF ne] show "hashClusterApart getFileHash vs c"
      by (simp add: hashClusterApart_def)
  qed
  show "list_all keepsNotRemoved (hreport out)"
    unfolding list_all_iff
  proof
    fix p assume p: "p \<in> set (hreport out)"
    obtain n e where pe: "p = (n, e)" by (cases p)
    from assms run p [unfolded pe] obtain vs cs where
      "variantsWf vs" "iconClusters getFileHash vs = Inr cs" "e = clustersDecision cs"
      by (rule hash_entry)
    then show "keepsNotRemoved p"
      by (simp add: pe keepsNotRemoved_clusters)
  qed
next
  assume run: "processVisualDeduplication fs iconDir tempDir render compare = Inr vout"
  show "list_all (visualEntryOk (visualClusterApart compare tempDir) g render compare tempDir)
          (vreport vout)"
    using assms run
  proof (rule visual_entries_ok)
    fix n vs cl
    assume a: "iconInvolved render compare tempDir (n, vs) = Inr cl" "variantsWf vs"
      and ne: "cl \<noteq> []"
    from iconInvolved_sound [OF a] have
      "set cl = set (involvedStyles compare tempDir n (map fst vs))" by simp
    with keepApart_cluster [OF ne] show "visualClusterApart compare tempDir n vs cl"
      by (simp add: visualClusterApart_def)
  qed
qed

theorem keep_apart_from_remove_witness:
  "groupIconsByName exampleFs ''/r'' = Inr exampleGroups
   \<and> processIconGroups exampleFs ''/r'' exampleHash = Inr exampleHashOut
   \<and> processVisualDeduplication exampleFs ''/r'' ''/t'' exampleRender exampleCompare
       = Inr exampleVisualOut
   \<and> list_all (hashEntryOk (hashClusterApart exampleHash) exampleGroups exampleHash)
       (hreport exampleHashOut)
   \<and> list_all keepsNotRemoved (hreport exampleHashOut)
   \<and> list_all (visualEntryOk (visualClusterApart exampleCompare ''/t'') exampleGroups
         exampleRender exampleCompare ''/t'') (vreport exampleVisualOut)
   \<and> involvedStyles exampleCompare ''/t'' ''a'' [''outlined'', ''filled'', ''sharp'', ''round'']
       = [''outlined'', ''filled'', ''filled'', ''round'']"
proof -
  have g: "groupIconsByName exampleFs ''/r'' = Inr exampleGroups"
    by code_simp
  have h: "processIconGroups exampleFs ''/r'' exampleHash = Inr exampleHashOut"
    by code_simp
  have v: "processVisualDeduplication exampleFs ''/r'' ''/t'' exampleRender exampleCompare
             = Inr exampleVisualOut"
    by code_simp
  have i: "involvedStyles exampleCompare ''/t'' ''a'' [''outlined'', ''filled'', ''sharp'', ''round'']
       = [''outlined'', ''filled'', ''filled'', ''round'']"
    by code_simp
  from keep_apart_from_remove [OF g, of exampleHash exampleHashOut "''/t''" exampleRender
      exampleCompare exampleVisualOut] g h v i
  show ?thesis by simp
qed

subsection \<open>Equal judgments that are not transitive\<close>

lemma renderAll_rendered:
  "renderAll r t n es acc = Inr png \<Longrightarrow> (s, p) \<in> set es \<Longrightarrow> r p (pngPathOf t n s)"
proof (induction es arbitrary: acc)
  case Nil
  then show ?case by simp
next
  case (Cons e es)
  obtain s' p' where e: "e = (s', p')" by (cases e)
  from Cons.prems(1) have r: "r p' (pngPathOf t n s')"
    and rest: "renderAll r t n es (objSet s' (pngPathOf t n s') acc) = Inr png"
    by (auto simp: e split: if_splits)
  show ?case
  proof (cases "(s, p) = e")
    case True
    with r e show ?thesis by simp
  next
    case False
    with Cons.prems(2) have "(s, p) \<in> set es" by simp
    with rest show ?thesis by (rule Cons.IH)
  qed
qed

lemma iconInvolved_rendered:
  assumes "iconInvolved r c t (n, vs) = Inr cl" and "objectEntries vs = vs"
    and "length vs \<ge> 2" and "(s, p) \<in> set vs"
  shows "r p (pngPathOf t n s)"
proof -
  from assms(1-3) obtain png where "renderAll r t n vs [] = Inr png"
    by (auto simp: iconInvolved_def Let_def split: sum.splits if_splits)
  then show ?thesis using assms(4) by (rule renderAll_rendered)
qed

lemma nontransitive_involved:
  assumes "render po (pngPathOf tempDir n ''outlined'')"
    and "render pf (pngPathOf tempDir n ''filled'')"
    and "render pr (pngPathOf tempDir n ''round'')"
    and "compare (pngPathOf tempDir n ''outlined'') (pngPathOf tempDir n ''filled'') = Some True"
    and "compare (pngPathOf tempDir n ''filled'') (pngPathOf tempDir n ''round'') = Some True"
    and "compare (pngPathOf tempDir n ''outlined'') (pngPathOf tempDir n ''round'') = Some False"
    and "vs = [(''outlined'', po), (''filled'', pf), (''round'', pr)]
         \<or> (vs = [(''outlined'', po), (''filled'', pf), (''sharp'', ps), (''round'', pr)]
            \<and> render ps (pngPathOf tempDir n ''sharp'')
            \<and> compare (pngPathOf tempDir n ''outlined'') (pngPathOf tempDir n ''sharp'') = Some False
            \<and> compare (pngPathOf tempDir n ''filled'') (pngPathOf tempDir n ''sharp'') = Some False
            \<and> compare (pngPathOf tempDir n ''sharp'') (pngPathOf tempDir n ''round'') = Some False)"
  shows "iconInvolved render compare tempDir (n, vs) = Inr [''outlined'', ''filled'', ''round'']"
proof -
  have oe: "objectEntries vs = vs"
    using assms(7) by (intro objectEntries_styles) (auto simp: STYLES_def)
  show ?thesis
    using assms(7)
  proof
    assume "vs = [(''outlined'', po), (''filled'', pf), (''round'', pr)]"
    with assms(1-6) oe show ?thesis
      by (simp add: iconInvolved_def allInvolved_def setAdd_def recordPair_def setOf_def)
  next
    assume "vs = [(''outlined'', po), (''filled'', pf), (''sharp'', ps), (''round'', pr)]
            \<and> render ps (pngPathOf tempDir n ''sharp'')
            \<and> compare (pngPathOf tempDir n ''outlined'') (pngPathOf tempDir n ''sharp'') = Some False
            \<and> compare (pngPathOf tempDir n ''filled'') (pngPathOf tempDir n ''sharp'') = Some False
            \<and> compare (pngPathOf tempDir n ''sharp'') (pngPathOf tempDir n ''round'') = Some False"
    with assms(1-6) oe show ?thesis
      by (simp add: iconInvolved_def allInvolved_def setAdd_def recordPair_def setOf_def)
  qed
qed

text \<open>
  C2. In a completed run of the visual deduplicator, for an icon of the Group that has the
  styles outlined, filled and round: if the oracle judges outlined/filled equal,
  filled/round equal and outlined/round not equal (and, when the icon also has the style
  sharp, judges sharp equal to none of the three), then the involved styles of the icon are
  outlined, filled and round, and the report of the run has, for this icon, the one
  decision that keeps outlined and removes filled and round.
\<close>

theorem nontransitive_cluster:
  assumes "groupIconsByName fs iconDir = Inr g"
    and "processVisualDeduplication fs iconDir tempDir render compare = Inr vout"
    and "(n, vs) \<in> set g"
    and "{''outlined'', ''filled'', ''round''} \<subseteq> set (map fst vs)"
    and "compare (pngPathOf tempDir n ''outlined'') (pngPathOf tempDir n ''filled'') = Some True"
    and "compare (pngPathOf tempDir n ''filled'') (pngPathOf tempDir n ''round'') = Some True"
    and "compare (pngPathOf tempDir n ''outlined'') (pngPathOf tempDir n ''round'') = Some False"
    and "''sharp'' \<in> set (map fst vs) \<Longrightarrow>
           compare (pngPathOf tempDir n ''outlined'') (pngPathOf tempDir n ''sharp'') = Some False
           \<and> compare (pngPathOf tempDir n ''filled'') (pngPathOf tempDir n ''sharp'') = Some False
           \<and> compare (pngPathOf tempDir n ''sharp'') (pngPathOf tempDir n ''round'') = Some False"
  shows "iconInvolved render compare tempDir (n, vs) = Inr [''outlined'', ''filled'', ''round'']
       \<and> set (involvedStyles compare tempDir n (map fst vs)) = {''outlined'', ''filled'', ''round''}
       \<and> map_of (vreport vout) n
           = Some \<lparr>vkeep = Some ''outlined'', vremove = [''filled'', ''round'']\<rparr>"
proof -
  from assms(1-3) obtain cl where
    wf: "variantsWf vs" and cl: "iconInvolved render compare tempDir (n, vs) = Inr cl"
    and m: "map_of (vreport vout) n = (if cl = [] then None else Some (clusterDecision cl))"
    by (rule visual_icon)
  from wf have "set (map fst vs) \<subseteq> set STYLES" by (simp add: variantsWf_def)
  then have oe: "objectEntries vs = vs" by (rule objectEntries_styles)
  from assms(1,3) have ord: "map fst vs = filter (\<lambda>s. s \<in> set (map fst vs)) STYLES"
    by (rule groupIconsByName_ordered)
  have rd: "render p (pngPathOf tempDir n s)" if "(s, p) \<in> set vs" "length vs \<ge> 2" for s p
    using cl oe that(2) that(1) by (rule iconInvolved_rendered)
  from ord assms(4)
  have inv: "iconInvolved render compare tempDir (n, vs) = Inr [''outlined'', ''filled'', ''round'']"
  proof (cases rule: three_or_four_styles)
    case (three po pf pr)
    have "render po (pngPathOf tempDir n ''outlined'')"
      and "render pf (pngPathOf tempDir n ''filled'')"
      and "render pr (pngPathOf tempDir n ''round'')"
      by (rule rd; simp add: three(2))+
    moreover note assms(5-7)
    moreover from three(2)
    have "vs = [(''outlined'', po), (''filled'', pf), (''round'', pr)]
         \<or> (vs = [(''outlined'', po), (''filled'', pf), (''sharp'', undefined), (''round'', pr)]
            \<and> render undefined (pngPathOf tempDir n ''sharp'')
            \<and> compare (pngPathOf tempDir n ''outlined'') (pngPathOf tempDir n ''sharp'') = Some False
            \<and> compare (pngPathOf tempDir n ''filled'') (pngPathOf tempDir n ''sharp'') = Some False
            \<and> compare (pngPathOf tempDir n ''sharp'') (pngPathOf tempDir n ''round'') = Some False)"
      by simp
    ultimately show ?thesis by (rule nontransitive_involved)
  next
    case (four po pf ps pr)
    have rs: "render ps (pngPathOf tempDir n ''sharp'')"
      by (rule rd; simp add: four(2))
    have "render po (pngPathOf tempDir n ''outlined'')"
      and "render pf (pngPathOf tempDir n ''filled'')"
      and "render pr (pngPathOf tempDir n ''round'')"
      by (rule rd; simp add: four(2))+
    moreover note assms(5-7)
    moreover from four(2) rs assms(8) [OF four(1)]
    have "vs = [(''outlined'', po), (''filled'', pf), (''round'', pr)]
         \<or> (vs = [(''outlined'', po), (''filled'', pf), (''sharp'', ps), (''round'', pr)]
            \<and> render ps (pngPathOf tempDir n ''sharp'')
            \<and> compare (pngPathOf tempDir n ''outlined'') (pngPathOf tempDir n ''sharp'') = Some False
            \<and> compare (pngPathOf tempDir n ''filled'') (pngPathOf tempDir n ''sharp'') = Some False
            \<and> compare (pngPathOf tempDir n ''sharp'') (pngPathOf tempDir n ''round'') = Some False)"
      by simp
    ultimately show ?thesis by (rule nontransitive_involved)
  qed
  with cl have c: "cl = [''outlined'', ''filled'', ''round'']" by simp
  have d: "clusterDecision [''outlined'', ''filled'', ''round'']
          = \<lparr>vkeep = Some ''outlined'', vremove = [''filled'', ''round'']\<rparr>"
    by (simp add: clusterDecision_def clusterKeep_def clusterRemove_def resolveCluster_def)
  from iconInvolved_sound [OF inv wf]
  have s: "set (involvedStyles compare tempDir n (map fst vs)) = {''outlined'', ''filled'', ''round''}"
    by simp
  from inv s m show ?thesis by (simp add: c d)
qed

theorem nontransitive_cluster_witness:
  "groupIconsByName exampleFs ''/r'' = Inr exampleGroups
   \<and> processVisualDeduplication exampleFs ''/r'' ''/t'' exampleRender exampleCompare
       = Inr exampleVisualOut
   \<and> (''a'', [(''outlined'', ''/r/outlined/a.svg''), (''filled'', ''/r/filled/a.svg''),
             (''sharp'', ''/r/sharp/a.svg''), (''round'', ''/r/round/a.svg'')]) \<in> set exampleGroups
   \<and> groupIconsByName exampleFsThree ''/r''
       = Inr [(''a'', [(''outlined'', ''/r/outlined/a.svg''), (''filled'', ''/r/filled/a.svg''),
                      (''round'', ''/r/round/a.svg'')])]
   \<and> processVisualDeduplication exampleFsThree ''/r'' ''/t'' exampleRender exampleCompare
       = Inr exampleVisualOutThree
   \<and> exampleCompare (pngPathOf ''/t'' ''a'' ''outlined'') (pngPathOf ''/t'' ''a'' ''filled'') = Some True
   \<and> exampleCompare (pngPathOf ''/t'' ''a'' ''filled'') (pngPathOf ''/t'' ''a'' ''round'') = Some True
   \<and> exampleCompare (pngPathOf ''/t'' ''a'' ''outlined'') (pngPathOf ''/t'' ''a'' ''round'') = Some False
   \<and> exampleCompare (pngPathOf ''/t'' ''a'' ''outlined'') (pngPathOf ''/t'' ''a'' ''sharp'') = Some False
   \<and> exampleCompare (pngPathOf ''/t'' ''a'' ''filled'') (pngPathOf ''/t'' ''a'' ''sharp'') = Some False
   \<and> exampleCompare (pngPathOf ''/t'' ''a'' ''sharp'') (pngPathOf ''/t'' ''a'' ''round'') = Some False
   \<and> iconInvolved exampleRender exampleCompare ''/t''
        (''a'', [(''outlined'', ''/r/outlined/a.svg''), (''filled'', ''/r/filled/a.svg''),
                 (''sharp'', ''/r/sharp/a.svg''), (''round'', ''/r/round/a.svg'')])
       = Inr [''outlined'', ''filled'', ''round'']
   \<and> iconInvolved exampleRender exampleCompare ''/t''
        (''a'', [(''outlined'', ''/r/outlined/a.svg''), (''filled'', ''/r/filled/a.svg''),
                 (''round'', ''/r/round/a.svg'')])
       = Inr [''outlined'', ''filled'', ''round'']
   \<and> map_of (vreport exampleVisualOut) ''a''
       = Some \<lparr>vkeep = Some ''outlined'', vremove = [''filled'', ''round'']\<rparr>
   \<and> map_of (vreport exampleVisualOutThree) ''a''
       = Some \<lparr>vkeep = Some ''outlined'', vremove = [''filled'', ''round'']\<rparr>"
proof -
  have g4: "groupIconsByName exampleFs ''/r'' = Inr exampleGroups"
    by code_simp
  have v4: "processVisualDeduplication exampleFs ''/r'' ''/t'' exampleRender exampleCompare
              = Inr exampleVisualOut"
    by code_simp
  have m4: "(''a'', [(''outlined'', ''/r/outlined/a.svg''), (''filled'', ''/r/filled/a.svg''),
                    (''sharp'', ''/r/sharp/a.svg''), (''round'', ''/r/round/a.svg'')])
              \<in> set exampleGroups"
    by (simp add: exampleGroups_def)
  have g3: "groupIconsByName exampleFsThree ''/r''
       = Inr [(''a'', [(''outlined'', ''/r/outlined/a.svg''), (''filled'', ''/r/filled/a.svg''),
                      (''round'', ''/r/round/a.svg'')])]"
    by code_simp
  have v3: "processVisualDeduplication exampleFsThree ''/r'' ''/t'' exampleRender exampleCompare
       = Inr exampleVisualOutThree"
    by code_simp
  have c1: "exampleCompare (pngPathOf ''/t'' ''a'' ''outlined'') (pngPathOf ''/t'' ''a'' ''filled'') = Some True"
    and c2: "exampleCompare (pngPathOf ''/t'' ''a'' ''filled'') (pngPathOf ''/t'' ''a'' ''round'') = Some True"
    and c3: "exampleCompare (pngPathOf ''/t'' ''a'' ''outlined'') (pngPathOf ''/t'' ''a'' ''round'') = Some False"
    and c4: "exampleCompare (pngPathOf ''/t'' ''a'' ''outlined'') (pngPathOf ''/t'' ''a'' ''sharp'') = Some False"
    and c5: "exampleCompare (pngPathOf ''/t'' ''a'' ''filled'') (pngPathOf ''/t'' ''a'' ''sharp'') = Some False"
    and c6: "exampleCompare (pngPathOf ''/t'' ''a'' ''sharp'') (pngPathOf ''/t'' ''a'' ''round'') = Some False"
    by (simp_all add: exampleCompare_def pngPathOf_def pathJoin_def)
  note four = nontransitive_cluster [where fs = exampleFs and iconDir = "''/r''"
      and g = exampleGroups and vout = exampleVisualOut
      and render = exampleRender and compare = exampleCompare
      and tempDir = "''/t''" and n = "''a''"
      and vs = "[(''outlined'', ''/r/outlined/a.svg''), (''filled'', ''/r/filled/a.svg''),
                 (''sharp'', ''/r/sharp/a.svg''), (''round'', ''/r/round/a.svg'')]"]
  note three = nontransitive_cluster [where fs = exampleFsThree and iconDir = "''/r''"
      and g = "[(''a'', [(''outlined'', ''/r/outlined/a.svg''), (''filled'', ''/r/filled/a.svg''),
                      (''round'', ''/r/round/a.svg'')])]" and vout = exampleVisualOutThree
      and render = exampleRender and compare = exampleCompare
      and tempDir = "''/t''" and n = "''a''"
      and vs = "[(''outlined'', ''/r/outlined/a.svg''), (''filled'', ''/r/filled/a.svg''),
                 (''round'', ''/r/round/a.svg'')]"]
  from four three g4 v4 m4 g3 v3 c1 c2 c3 c4 c5 c6 show ?thesis
    by simp
qed

subsection \<open>The shape of an entry of the exact report\<close>

lemma map_of_hreportJson:
  assumes "distinct (map fst rep)" and "(n, d) \<in> set rep"
  shows "jsonGet (hreportJson rep) n = Some (hdecisionJson d)"
proof -
  have "distinct (map fst (objectEntries rep))"
    using assms(1) by (rule distinct_objectEntries)
  moreover have "(n, d) \<in> set (objectEntries rep)"
    using assms(2) by (simp add: set_objectEntries)
  ultimately have "map_of (objectEntries rep) n = Some d" by simp
  then have "map_of (map (\<lambda>p. (fst p, hdecisionJson (snd p))) (objectEntries rep)) n
               = Some (hdecisionJson d)"
    by (simp add: map_of_map [unfolded case_prod_beta comp_def])
  then show ?thesis by (simp add: jsonGet_def hreportJson_def)
qed

text \<open>
  C3, as the program has it. In the report that the exact deduplicator writes, an icon whose
  styles fall into more than one duplicate cluster is one object: its \<open>keep\<close> array has the
  kept style of each cluster, in the order of the clusters, and its \<open>remove\<close> array has the
  removed styles of the clusters one after the other.
\<close>

theorem several_clusters_one_object:
  assumes "groupIconsByName fs iconDir = Inr g"
    and "processIconGroups fs iconDir getFileHash = Inr out"
    and "(n, vs) \<in> set g"
    and "iconClusters getFileHash vs = Inr cs"
    and "length cs > 1"
  shows "reportEntryJson (processIconGroups fs iconDir getFileHash) n =
           Some (JObj [(''keep'', JArr (map (\<lambda>c. keepJson (clusterKeep c)) cs)),
                       (''remove'', JArr (map JStr (concat (map clusterRemove cs))))])"
proof -
  from assms(2) obtain g' where
    "groupIconsByName fs iconDir = Inr g'" and wf: "groupsWf g'"
    and rep: "hreport out = reportOf getFileHash (objectEntries g')"
    by (rule hash_run)
  with assms(1) have gg: "g' = g" by simp
  from assms(5) have ne: "cs \<noteq> []" by auto
  have "(n, vs) \<in> set (objectEntries g)"
    using assms(3) by (simp add: set_objectEntries)
  from reportOf_entryI [OF this assms(4) ne] have
    m: "(n, clustersDecision cs) \<in> set (hreport out)"
    by (simp add: rep gg)
  have "distinct (map fst (hreport out))"
    unfolding rep using wf
    by (intro distinct_reportOf distinct_objectEntries) (simp add: groupsWf_def)
  from map_of_hreportJson [OF this m] show ?thesis
    by (simp add: reportEntryJson_def assms(2) hdecisionJson_def clustersDecision_def comp_def)
qed

theorem several_clusters_one_object_witness:
  "groupIconsByName exampleFs ''/r'' = Inr exampleGroups
   \<and> processIconGroups exampleFs ''/r'' exampleHash = Inr exampleHashOut
   \<and> iconClusters exampleHash
        [(''outlined'', ''/r/outlined/d.svg''), (''filled'', ''/r/filled/d.svg''),
         (''sharp'', ''/r/sharp/d.svg''), (''round'', ''/r/round/d.svg'')]
       = Inr [[''outlined'', ''filled''], [''sharp'', ''round'']]
   \<and> reportEntryJson (processIconGroups exampleFs ''/r'' exampleHash) ''d'' =
       Some (JObj [(''keep'', JArr [JStr ''outlined'', JStr ''round'']),
                   (''remove'', JArr [JStr ''filled'', JStr ''sharp''])])"
proof -
  have g: "groupIconsByName exampleFs ''/r'' = Inr exampleGroups"
    by code_simp
  have h: "processIconGroups exampleFs ''/r'' exampleHash = Inr exampleHashOut"
    by code_simp
  have m: "(''d'', [(''outlined'', ''/r/outlined/d.svg''), (''filled'', ''/r/filled/d.svg''),
                   (''sharp'', ''/r/sharp/d.svg''), (''round'', ''/r/round/d.svg'')])
           \<in> set exampleGroups"
    by (simp add: exampleGroups_def)
  have c: "iconClusters exampleHash
        [(''outlined'', ''/r/outlined/d.svg''), (''filled'', ''/r/filled/d.svg''),
         (''sharp'', ''/r/sharp/d.svg''), (''round'', ''/r/round/d.svg'')]
       = Inr [[''outlined'', ''filled''], [''sharp'', ''round'']]"
    by code_simp
  have k: "clusterKeep [''outlined'', ''filled''] = Some ''outlined''"
    "clusterKeep [''sharp'', ''round''] = Some ''round''"
    "clusterRemove [''outlined'', ''filled''] = [''filled'']"
    "clusterRemove [''sharp'', ''round''] = [''sharp'']"
    by code_simp+
  from several_clusters_one_object [OF g h m c] g h c show ?thesis
    by (simp add: k keepJson_def)
qed

theorem array_of_decisions_counterexample:
  "iconClusters exampleHash
        [(''outlined'', ''/r/outlined/d.svg''), (''filled'', ''/r/filled/d.svg''),
         (''sharp'', ''/r/sharp/d.svg''), (''round'', ''/r/round/d.svg'')]
       = Inr [[''outlined'', ''filled''], [''sharp'', ''round'']]
   \<and> reportEntryJson (processIconGroups exampleFs ''/r'' exampleHash) ''d'' =
       Some (JObj [(''keep'', JArr [JStr ''outlined'', JStr ''round'']),
                   (''remove'', JArr [JStr ''filled'', JStr ''sharp''])])
   \<and> reportEntryJson (processIconGroups exampleFs ''/r'' exampleHash) ''d'' \<noteq>
       Some (specArrayOfDecisions [[''outlined'', ''filled''], [''sharp'', ''round'']])"
  by code_simp

subsection \<open>The deleters\<close>

text \<open>
  C8. Called with a report path at which nothing exists, either deleter logs that the
  report was not found and returns: no exception, no file deleted, the file system as it
  was.
\<close>

theorem missing_report_deletes_nothing:
  assumes "fs reportPath = None"
  shows "deleteFilesByHashReport parseH iconDir fs reportPath
           = \<lparr>dfs = fs, totalDeleted = 0, dlog = [ReportNotFound reportPath], thrown = None\<rparr>
       \<and> deleteFilesByVisualReport parseV iconDir fs reportPath
           = \<lparr>dfs = fs, totalDeleted = 0, dlog = [ReportNotFound reportPath], thrown = None\<rparr>"
  using assms
  by (simp add: deleteFilesByHashReport_def deleteFilesByVisualReport_def dInit_def)

theorem missing_report_deletes_nothing_witness:
  "exampleDisk ''./nope.json'' = None
   \<and> deleteFilesByHashReport exampleParseHash ''/r'' exampleDisk ''./nope.json''
       = \<lparr>dfs = exampleDisk, totalDeleted = 0, dlog = [ReportNotFound ''./nope.json''],
          thrown = None\<rparr>
   \<and> deleteFilesByVisualReport exampleParseVisual ''/r'' exampleDisk ''./nope.json''
       = \<lparr>dfs = exampleDisk, totalDeleted = 0, dlog = [ReportNotFound ''./nope.json''],
          thrown = None\<rparr>"
proof -
  have a: "exampleDisk ''./nope.json'' = None"
    by (simp add: exampleDisk_def)
  from missing_report_deletes_nothing [where fs = exampleDisk and reportPath = "''./nope.json''"
      and parseH = exampleParseHash and parseV = exampleParseVisual and iconDir = "''/r''"] a
  show ?thesis by simp
qed

lemma deleteStyle_deletePath:
  "deleteStyle iconDir iconName style st = deletePath (targetPath iconDir style iconName) st"
  by (simp add: deleteStyle_def deletePath_def Let_def)

lemma deletePaths_thrown: "thrown st \<noteq> None \<Longrightarrow> deletePaths ps st = st"
  by (cases ps) simp_all

lemma deletePaths_append: "deletePaths (ps @ qs) st = deletePaths qs (deletePaths ps st)"
  by (induction ps arbitrary: st) (auto simp: deletePaths_thrown)

lemma deleteStyles_paths:
  "deleteStyles iconDir n styles st
     = deletePaths (map (\<lambda>style. targetPath iconDir style n) styles) st"
  by (induction styles arbitrary: st) (simp_all add: deleteStyle_deletePath)

lemma deleteGroups_paths:
  "deleteGroups iconDir n gs st
     = deletePaths (map (\<lambda>style. targetPath iconDir style n) (concat gs)) st"
proof (induction gs arbitrary: st)
  case Nil
  show ?case by simp
next
  case (Cons g gs)
  show ?case
    by (simp add: Cons.IH deleteStyles_paths deletePaths_append deletePaths_thrown)
qed

lemma deleteHashEntries_paths:
  "deleteHashEntries iconDir report st = deletePaths (hashTargets iconDir report) st"
proof (induction report arbitrary: st)
  case Nil
  show ?case by (simp add: hashTargets_def)
next
  case (Cons e es)
  obtain n entry where e: "e = (n, entry)" by (cases e)
  have "hashTargets iconDir (e # es)
          = map (\<lambda>style. targetPath iconDir style n) (concat (groupsOf entry))
            @ hashTargets iconDir es"
    by (simp add: hashTargets_def e)
  then show ?case
    by (simp add: e Cons.IH deleteGroups_paths deletePaths_append deletePaths_thrown)
qed

lemma deleteVisualEntries_paths:
  "deleteVisualEntries iconDir report st = deletePaths (visualTargets iconDir report) st"
proof (induction report arbitrary: st)
  case Nil
  show ?case by (simp add: visualTargets_def)
next
  case (Cons e es)
  obtain n remove where e: "e = (n, remove)" by (cases e)
  have "visualTargets iconDir (e # es)
          = map (\<lambda>style. targetPath iconDir style n) remove @ visualTargets iconDir es"
    by (simp add: visualTargets_def e)
  then show ?case
    by (simp add: e Cons.IH deleteStyles_paths deletePaths_append deletePaths_thrown)
qed

lemma deletePath_absent: "dfs st p = None \<Longrightarrow> deletePath p st = st"
  by (simp add: deletePath_def)

lemma deletePath_fs:
  "dfs (deletePath p st) q = None \<or> dfs (deletePath p st) q = dfs st q"
  by (auto simp: deletePath_def split: option.splits node.splits)

lemma deletePath_gone: "thrown (deletePath p st) = None \<Longrightarrow> dfs (deletePath p st) p = None"
  by (auto simp: deletePath_def split: option.splits node.splits)

lemma deletePaths_fs:
  "dfs (deletePaths ps st) q = None \<or> dfs (deletePaths ps st) q = dfs st q"
proof (induction ps arbitrary: st)
  case Nil
  show ?case by simp
next
  case (Cons p ps)
  from Cons.IH [of "deletePath p st"] deletePath_fs [of p st q] show ?case
    by auto
qed

lemma deletePath_thrown_mono: "thrown (deletePath p st) = None \<Longrightarrow> thrown st = None"
  by (cases "dfs st p"; cases "the (dfs st p)") (simp_all add: deletePath_def)

lemma deletePaths_thrown_mono: "thrown (deletePaths ps st) = None \<Longrightarrow> thrown st = None"
proof (induction ps arbitrary: st)
  case Nil
  then show ?case by simp
next
  case (Cons p ps)
  show ?case
  proof (cases "thrown st")
    case None
    then show ?thesis .
  next
    case (Some e)
    with Cons.prems show ?thesis by simp
  qed
qed

lemma deletePaths_gone:
  "thrown (deletePaths ps st) = None \<Longrightarrow> p \<in> set ps \<Longrightarrow> dfs (deletePaths ps st) p = None"
proof (induction ps arbitrary: st)
  case Nil
  then show ?case by simp
next
  case (Cons a ps)
  from Cons.prems(1) have t0: "thrown st = None" by (rule deletePaths_thrown_mono)
  with Cons.prems(1) have t: "thrown (deletePaths ps (deletePath a st)) = None" by simp
  then have t1: "thrown (deletePath a st) = None" by (rule deletePaths_thrown_mono)
  show ?case
  proof (cases "p \<in> set ps")
    case True
    from Cons.IH [OF t True] t0 show ?thesis by simp
  next
    case False
    with Cons.prems(2) have "p = a" by simp
    with deletePath_gone [OF t1] deletePaths_fs [of ps "deletePath a st" a] t0
    show ?thesis by auto
  qed
qed

lemma deletePaths_absent:
  "(\<And>p. p \<in> set ps \<Longrightarrow> dfs st p = None) \<Longrightarrow> deletePaths ps st = st"
  by (induction ps arbitrary: st) (simp_all add: deletePath_absent)

text \<open>Running a list of deletions again, on the disk that the first run left.\<close>

lemma deletePaths_again:
  assumes "thrown (deletePaths ps (dInit fs)) = None"
  shows "deletePaths ps (dInit (dfs (deletePaths ps (dInit fs))))
           = dInit (dfs (deletePaths ps (dInit fs)))"
proof (rule deletePaths_absent)
  fix p assume "p \<in> set ps"
  with assms have "dfs (deletePaths ps (dInit fs)) p = None" by (rule deletePaths_gone)
  then show "dfs (dInit (dfs (deletePaths ps (dInit fs)))) p = None"
    by (simp add: dInit_def)
qed

lemma finish_fs: "dfs (finish st) = dfs st"
  by (simp add: finish_def)

lemma finish_thrown: "thrown (finish st) = thrown st"
  by (simp add: finish_def)

lemma second_run:
  assumes "thrown (deletePaths ps (dInit fs)) = None"
  shows "finish (deletePaths ps (dInit (dfs (deletePaths ps (dInit fs)))))
           = (dInit (dfs (deletePaths ps (dInit fs))))\<lparr>dlog := [TotalDeleted 0]\<rparr>"
  by (simp add: deletePaths_again [OF assms]) (simp add: finish_def dInit_def)

lemma first_run_report:
  "dfs (deletePaths ps (dInit fs)) rp = None \<or> dfs (deletePaths ps (dInit fs)) rp = fs rp"
  using deletePaths_fs [of ps "dInit fs" rp] by (simp add: dInit_def)

lemma hash_rerun:
  assumes "thrown (deleteFilesByHashReport parse iconDir fs rp) = None"
  shows "thrown (deleteFilesByHashReport parse iconDir
                   (dfs (deleteFilesByHashReport parse iconDir fs rp)) rp) = None
       \<and> dfs (deleteFilesByHashReport parse iconDir
                (dfs (deleteFilesByHashReport parse iconDir fs rp)) rp)
           = dfs (deleteFilesByHashReport parse iconDir fs rp)
       \<and> totalDeleted (deleteFilesByHashReport parse iconDir
                (dfs (deleteFilesByHashReport parse iconDir fs rp)) rp) = 0"
proof (cases "fs rp")
  case None
  then show ?thesis
    by (simp add: deleteFilesByHashReport_def dInit_def)
next
  case (Some nd)
  show ?thesis
  proof (cases nd)
    case Directory
    with Some assms show ?thesis
      by (simp add: deleteFilesByHashReport_def dInit_def)
  next
    case (File c)
    show ?thesis
    proof (cases "parse c")
      case None
      with Some File assms show ?thesis
        by (simp add: deleteFilesByHashReport_def dInit_def)
    next
      case (Some report)
      let ?ps = "hashTargets iconDir (objectEntries report)"
      let ?st = "deletePaths ?ps (dInit fs)"
      have r1: "deleteFilesByHashReport parse iconDir fs rp = finish ?st"
        using \<open>fs rp = Some nd\<close> File Some
        by (simp add: deleteFilesByHashReport_def deleteHashEntries_paths)
      with assms have t: "thrown ?st = None" by (simp add: finish_thrown)
      have f1: "dfs (deleteFilesByHashReport parse iconDir fs rp) = dfs ?st"
        by (simp add: r1 finish_fs)
      from first_run_report [of ?ps fs rp] show ?thesis
      proof
        assume "dfs ?st rp = None"
        then show ?thesis
          by (simp add: f1) (simp add: deleteFilesByHashReport_def dInit_def)
      next
        assume "dfs ?st rp = fs rp"
        then have "deleteFilesByHashReport parse iconDir (dfs ?st) rp
                     = finish (deletePaths ?ps (dInit (dfs ?st)))"
          using \<open>fs rp = Some nd\<close> File Some
          by (simp add: deleteFilesByHashReport_def deleteHashEntries_paths)
        then show ?thesis
          by (simp add: f1 second_run [OF t]) (simp add: dInit_def)
      qed
    qed
  qed
qed

lemma visual_rerun:
  assumes "thrown (deleteFilesByVisualReport parse iconDir fs rp) = None"
  shows "thrown (deleteFilesByVisualReport parse iconDir
                   (dfs (deleteFilesByVisualReport parse iconDir fs rp)) rp) = None
       \<and> dfs (deleteFilesByVisualReport parse iconDir
                (dfs (deleteFilesByVisualReport parse iconDir fs rp)) rp)
           = dfs (deleteFilesByVisualReport parse iconDir fs rp)
       \<and> totalDeleted (deleteFilesByVisualReport parse iconDir
                (dfs (deleteFilesByVisualReport parse iconDir fs rp)) rp) = 0"
proof (cases "fs rp")
  case None
  then show ?thesis
    by (simp add: deleteFilesByVisualReport_def dInit_def)
next
  case (Some nd)
  show ?thesis
  proof (cases nd)
    case Directory
    with Some assms show ?thesis
      by (simp add: deleteFilesByVisualReport_def dInit_def)
  next
    case (File c)
    show ?thesis
    proof (cases "parse c")
      case None
      with Some File assms show ?thesis
        by (simp add: deleteFilesByVisualReport_def dInit_def)
    next
      case (Some report)
      let ?ps = "visualTargets iconDir (objectEntries report)"
      let ?st = "deletePaths ?ps (dInit fs)"
      have r1: "deleteFilesByVisualReport parse iconDir fs rp = finish ?st"
        using \<open>fs rp = Some nd\<close> File Some
        by (simp add: deleteFilesByVisualReport_def deleteVisualEntries_paths)
      with assms have t: "thrown ?st = None" by (simp add: finish_thrown)
      have f1: "dfs (deleteFilesByVisualReport parse iconDir fs rp) = dfs ?st"
        by (simp add: r1 finish_fs)
      from first_run_report [of ?ps fs rp] show ?thesis
      proof
        assume "dfs ?st rp = None"
        then show ?thesis
          by (simp add: f1) (simp add: deleteFilesByVisualReport_def dInit_def)
      next
        assume "dfs ?st rp = fs rp"
        then have "deleteFilesByVisualReport parse iconDir (dfs ?st) rp
                     = finish (deletePaths ?ps (dInit (dfs ?st)))"
          using \<open>fs rp = Some nd\<close> File Some
          by (simp add: deleteFilesByVisualReport_def deleteVisualEntries_paths)
        then show ?thesis
          by (simp add: f1 second_run [OF t]) (simp add: dInit_def)
      qed
    qed
  qed
qed


lemma deletePaths_other: "q \<notin> set ps \<Longrightarrow> dfs (deletePaths ps st) q = dfs st q"
proof (induction ps arbitrary: st)
  case Nil
  show ?case by simp
next
  case (Cons p ps)
  then have "dfs (deletePath p st) q = dfs st q"
    by (auto simp: deletePath_def split: option.splits node.splits)
  with Cons show ?case by simp
qed

text \<open>
  C9. A removal entry whose target file is absent when its turn comes leaves the state of
  the deleter as it is: nothing thrown, nothing logged, the count not incremented. After a
  run of either deleter that completed, a second run on the disk that it left, with the
  same report path, completes as well, deletes nothing and changes nothing; where the
  report file is not itself one of the targets, the second run reads the report again and
  logs a total of 0.
\<close>

theorem absent_target_skipped:
  "(dfs st (targetPath iconDir style iconName) = None \<longrightarrow>
      deleteStyle iconDir iconName style st = st)
   \<and> (thrown (deleteFilesByHashReport parseH iconDir fs rp) = None \<longrightarrow>
        thrown (deleteFilesByHashReport parseH iconDir
                  (dfs (deleteFilesByHashReport parseH iconDir fs rp)) rp) = None
        \<and> dfs (deleteFilesByHashReport parseH iconDir
                  (dfs (deleteFilesByHashReport parseH iconDir fs rp)) rp)
            = dfs (deleteFilesByHashReport parseH iconDir fs rp)
        \<and> totalDeleted (deleteFilesByHashReport parseH iconDir
                  (dfs (deleteFilesByHashReport parseH iconDir fs rp)) rp) = 0)
   \<and> (thrown (deleteFilesByVisualReport parseV iconDir fs rp) = None \<longrightarrow>
        thrown (deleteFilesByVisualReport parseV iconDir
                  (dfs (deleteFilesByVisualReport parseV iconDir fs rp)) rp) = None
        \<and> dfs (deleteFilesByVisualReport parseV iconDir
                  (dfs (deleteFilesByVisualReport parseV iconDir fs rp)) rp)
            = dfs (deleteFilesByVisualReport parseV iconDir fs rp)
        \<and> totalDeleted (deleteFilesByVisualReport parseV iconDir
                  (dfs (deleteFilesByVisualReport parseV iconDir fs rp)) rp) = 0)
   \<and> (thrown (deleteFilesByHashReport parseH iconDir fs rp) = None
        \<and> fs rp = Some (File c) \<and> parseH c = Some hrep
        \<and> rp \<notin> set (hashTargets iconDir (objectEntries hrep)) \<longrightarrow>
        dlog (deleteFilesByHashReport parseH iconDir
                (dfs (deleteFilesByHashReport parseH iconDir fs rp)) rp) = [TotalDeleted 0])
   \<and> (thrown (deleteFilesByVisualReport parseV iconDir fs rp) = None
        \<and> fs rp = Some (File c) \<and> parseV c = Some vrep
        \<and> rp \<notin> set (visualTargets iconDir (objectEntries vrep)) \<longrightarrow>
        dlog (deleteFilesByVisualReport parseV iconDir
                (dfs (deleteFilesByVisualReport parseV iconDir fs rp)) rp) = [TotalDeleted 0])"
proof (intro conjI impI)
  assume "dfs st (targetPath iconDir style iconName) = None"
  then show "deleteStyle iconDir iconName style st = st"
    by (simp add: deleteStyle_def)
next
  assume a: "thrown (deleteFilesByHashReport parseH iconDir fs rp) = None"
  note r = hash_rerun [OF a]
  from r show "thrown (deleteFilesByHashReport parseH iconDir
                  (dfs (deleteFilesByHashReport parseH iconDir fs rp)) rp) = None" by simp
  from r show "dfs (deleteFilesByHashReport parseH iconDir
                  (dfs (deleteFilesByHashReport parseH iconDir fs rp)) rp)
            = dfs (deleteFilesByHashReport parseH iconDir fs rp)" by simp
  from r show "totalDeleted (deleteFilesByHashReport parseH iconDir
                  (dfs (deleteFilesByHashReport parseH iconDir fs rp)) rp) = 0" by simp
next
  assume a: "thrown (deleteFilesByVisualReport parseV iconDir fs rp) = None"
  note r = visual_rerun [OF a]
  from r show "thrown (deleteFilesByVisualReport parseV iconDir
                  (dfs (deleteFilesByVisualReport parseV iconDir fs rp)) rp) = None" by simp
  from r show "dfs (deleteFilesByVisualReport parseV iconDir
                  (dfs (deleteFilesByVisualReport parseV iconDir fs rp)) rp)
            = dfs (deleteFilesByVisualReport parseV iconDir fs rp)" by simp
  from r show "totalDeleted (deleteFilesByVisualReport parseV iconDir
                  (dfs (deleteFilesByVisualReport parseV iconDir fs rp)) rp) = 0" by simp
next
  let ?ps = "hashTargets iconDir (objectEntries hrep)"
  let ?st = "deletePaths ?ps (dInit fs)"
  assume a: "thrown (deleteFilesByHashReport parseH iconDir fs rp) = None
        \<and> fs rp = Some (File c) \<and> parseH c = Some hrep \<and> rp \<notin> set ?ps"
  then have r1: "deleteFilesByHashReport parseH iconDir fs rp = finish ?st"
    by (simp add: deleteFilesByHashReport_def deleteHashEntries_paths)
  with a have t: "thrown ?st = None" by (simp add: finish_thrown)
  from a have "dfs ?st rp = Some (File c)"
    by (simp add: deletePaths_other dInit_def)
  with a have "deleteFilesByHashReport parseH iconDir (dfs ?st) rp
                 = finish (deletePaths ?ps (dInit (dfs ?st)))"
    by (simp add: deleteFilesByHashReport_def deleteHashEntries_paths)
  then show "dlog (deleteFilesByHashReport parseH iconDir
                (dfs (deleteFilesByHashReport parseH iconDir fs rp)) rp) = [TotalDeleted 0]"
    by (simp add: r1 finish_fs second_run [OF t])
next
  let ?ps = "visualTargets iconDir (objectEntries vrep)"
  let ?st = "deletePaths ?ps (dInit fs)"
  assume a: "thrown (deleteFilesByVisualReport parseV iconDir fs rp) = None
        \<and> fs rp = Some (File c) \<and> parseV c = Some vrep \<and> rp \<notin> set ?ps"
  then have r1: "deleteFilesByVisualReport parseV iconDir fs rp = finish ?st"
    by (simp add: deleteFilesByVisualReport_def deleteVisualEntries_paths)
  with a have t: "thrown ?st = None" by (simp add: finish_thrown)
  from a have "dfs ?st rp = Some (File c)"
    by (simp add: deletePaths_other dInit_def)
  with a have "deleteFilesByVisualReport parseV iconDir (dfs ?st) rp
                 = finish (deletePaths ?ps (dInit (dfs ?st)))"
    by (simp add: deleteFilesByVisualReport_def deleteVisualEntries_paths)
  then show "dlog (deleteFilesByVisualReport parseV iconDir
                (dfs (deleteFilesByVisualReport parseV iconDir fs rp)) rp) = [TotalDeleted 0]"
    by (simp add: r1 finish_fs second_run [OF t])
qed

theorem absent_target_skipped_witness:
  "dfs (dInit exampleDisk) (targetPath ''/r'' ''sharp'' ''a'') = None
   \<and> deleteStyle ''/r'' ''a'' ''sharp'' (dInit exampleDisk) = dInit exampleDisk
   \<and> thrown (deleteFilesByHashReport exampleParseHash ''/r'' exampleDisk ''./dedup-report.json'')
       = None
   \<and> dlog (deleteFilesByHashReport exampleParseHash ''/r'' exampleDisk ''./dedup-report.json'')
       = [FileDeleted ''/r/filled/a.svg'', FileDeleted ''/r/round/a.svg'', TotalDeleted 2]
   \<and> thrown (deleteFilesByHashReport exampleParseHash ''/r''
        (dfs (deleteFilesByHashReport exampleParseHash ''/r'' exampleDisk ''./dedup-report.json''))
        ''./dedup-report.json'') = None
   \<and> totalDeleted (deleteFilesByHashReport exampleParseHash ''/r''
        (dfs (deleteFilesByHashReport exampleParseHash ''/r'' exampleDisk ''./dedup-report.json''))
        ''./dedup-report.json'') = 0
   \<and> dlog (deleteFilesByHashReport exampleParseHash ''/r''
        (dfs (deleteFilesByHashReport exampleParseHash ''/r'' exampleDisk ''./dedup-report.json''))
        ''./dedup-report.json'') = [TotalDeleted 0]
   \<and> thrown (deleteFilesByVisualReport exampleParseVisual ''/r'' exampleDisk
        ''./visual-dedup-report.json'') = None
   \<and> dlog (deleteFilesByVisualReport exampleParseVisual ''/r'' exampleDisk
        ''./visual-dedup-report.json'')
       = [FileDeleted ''/r/filled/a.svg'', FileDeleted ''/r/round/a.svg'', TotalDeleted 2]
   \<and> thrown (deleteFilesByVisualReport exampleParseVisual ''/r''
        (dfs (deleteFilesByVisualReport exampleParseVisual ''/r'' exampleDisk
               ''./visual-dedup-report.json''))
        ''./visual-dedup-report.json'') = None
   \<and> totalDeleted (deleteFilesByVisualReport exampleParseVisual ''/r''
        (dfs (deleteFilesByVisualReport exampleParseVisual ''/r'' exampleDisk
               ''./visual-dedup-report.json''))
        ''./visual-dedup-report.json'') = 0
   \<and> dlog (deleteFilesByVisualReport exampleParseVisual ''/r''
        (dfs (deleteFilesByVisualReport exampleParseVisual ''/r'' exampleDisk
               ''./visual-dedup-report.json''))
        ''./visual-dedup-report.json'') = [TotalDeleted 0]"
proof -
  have absent: "dfs (dInit exampleDisk) (targetPath ''/r'' ''sharp'' ''a'') = None"
    by code_simp
  have h1: "thrown (deleteFilesByHashReport exampleParseHash ''/r'' exampleDisk
                     ''./dedup-report.json'') = None"
    by code_simp
  have h2: "dlog (deleteFilesByHashReport exampleParseHash ''/r'' exampleDisk
                   ''./dedup-report.json'')
       = [FileDeleted ''/r/filled/a.svg'', FileDeleted ''/r/round/a.svg'', TotalDeleted 2]"
    by code_simp
  have h3: "exampleDisk ''./dedup-report.json'' = Some (File ''H'')"
    "exampleParseHash ''H'' = Some [(''a'', Single [''filled'', ''sharp'', ''round''])]"
    "''./dedup-report.json''
       \<notin> set (hashTargets ''/r'' (objectEntries [(''a'', Single [''filled'', ''sharp'', ''round''])]))"
    by code_simp+
  have v1: "thrown (deleteFilesByVisualReport exampleParseVisual ''/r'' exampleDisk
                     ''./visual-dedup-report.json'') = None"
    by code_simp
  have v2: "dlog (deleteFilesByVisualReport exampleParseVisual ''/r'' exampleDisk
                   ''./visual-dedup-report.json'')
       = [FileDeleted ''/r/filled/a.svg'', FileDeleted ''/r/round/a.svg'', TotalDeleted 2]"
    by code_simp
  have v3: "exampleDisk ''./visual-dedup-report.json'' = Some (File ''V'')"
    "exampleParseVisual ''V'' = Some [(''a'', [''filled'', ''sharp'', ''round''])]"
    "''./visual-dedup-report.json''
       \<notin> set (visualTargets ''/r'' (objectEntries [(''a'', [''filled'', ''sharp'', ''round''])]))"
    by code_simp+
  note h = absent_target_skipped [where st = "dInit exampleDisk" and iconDir = "''/r''"
      and style = "''sharp''" and iconName = "''a''" and fs = exampleDisk
      and parseH = exampleParseHash and parseV = exampleParseVisual
      and rp = "''./dedup-report.json''" and c = "''H''"
      and hrep = "[(''a'', Single [''filled'', ''sharp'', ''round''])]"]
  note v = absent_target_skipped [where st = "dInit exampleDisk" and iconDir = "''/r''"
      and style = "''sharp''" and iconName = "''a''" and fs = exampleDisk
      and parseH = exampleParseHash and parseV = exampleParseVisual
      and rp = "''./visual-dedup-report.json''" and c = "''V''"
      and vrep = "[(''a'', [''filled'', ''sharp'', ''round''])]"]
  from h v absent h1 h2 h3 v1 v2 v3 show ?thesis
    by simp
qed

subsection \<open>The marker\<close>

lemma strIncludes_self: "strIncludes sub sub"
  by (cases sub) simp_all

lemma strIncludes_append: "strIncludes (s @ sub) sub"
  by (induction s) (simp_all add: strIncludes_self)

lemma markVariantForDeletion_name:
  "strIncludes (nodeName (fst (markVariantForDeletion v))) warnMark"
proof (cases "strIncludes (nodeName v) warnMark")
  case True
  then show ?thesis by (simp add: markVariantForDeletion_def)
next
  case False
  have "strIncludes (nodeName v @ '' '' @ warnMark) warnMark"
    using strIncludes_append [of "nodeName v @ '' ''" warnMark] by simp
  with False show ?thesis by (simp add: markVariantForDeletion_def Let_def)
qed

lemma markVariantForDeletion_stroke:
  "writable v \<Longrightarrow> redStroke (fst (markVariantForDeletion v))"
  by (simp add: markVariantForDeletion_def Let_def)

lemma shouldMark_twotone: "shouldMark toLowerCase report iconName ''twotone'' = Some TwoToneStyle"
  by (simp add: shouldMark_def)

lemma processVariant_flagged:
  "flaggedAs toLowerCase v (fst (processVariant toLowerCase report iconName v))"
  by (simp add: flaggedAs_def twoToneVariant_def processVariant_def shouldMark_twotone
      markVariantForDeletion_name markVariantForDeletion_stroke)

lemma processChildren_flagged:
  "list_all2 (flaggedAs toLowerCase) cs (fst (processChildren toLowerCase report iconName cs k))"
proof (induction cs arbitrary: k)
  case Nil
  show ?case by simp
next
  case (Cons c cs)
  show ?case
  proof (cases "nodeType c = ''COMPONENT''")
    case True
    obtain c' counted where p: "processVariant toLowerCase report iconName c = (c', counted)"
      by (cases "processVariant toLowerCase report iconName c")
    obtain rest' n where
      q: "processChildren toLowerCase report iconName cs (if counted then k + 1 else k) = (rest', n)"
      by (cases "processChildren toLowerCase report iconName cs (if counted then k + 1 else k)")
    from processVariant_flagged [of toLowerCase c report iconName] p
    have "flaggedAs toLowerCase c c'" by simp
    moreover from Cons.IH [of "if counted then k + 1 else k"] q
    have "list_all2 (flaggedAs toLowerCase) cs rest'" by simp
    ultimately show ?thesis
      using True p q by simp
  next
    case False
    obtain rest' n where q: "processChildren toLowerCase report iconName cs k = (rest', n)"
      by (cases "processChildren toLowerCase report iconName cs k")
    from False have "flaggedAs toLowerCase c c" by (simp add: flaggedAs_def twoToneVariant_def)
    moreover from Cons.IH [of k] q have "list_all2 (flaggedAs toLowerCase) cs rest'" by simp
    ultimately show ?thesis
      using False q by simp
  qed
qed

lemma processSets_flagged:
  "list_all2 (\<lambda>s s'. list_all2 (flaggedAs toLowerCase) (children s) (children s'))
     sets (fst (processSets toLowerCase report sets k))"
proof (induction sets arbitrary: k)
  case Nil
  show ?case by simp
next
  case (Cons s sets)
  obtain cs' n where
    p: "processChildren toLowerCase report (normalizeName toLowerCase (setName s)) (children s) k
          = (cs', n)"
    by (cases "processChildren toLowerCase report (normalizeName toLowerCase (setName s))
                 (children s) k")
  from processChildren_flagged
    [of toLowerCase "children s" report "normalizeName toLowerCase (setName s)" k] p
  have "list_all2 (flaggedAs toLowerCase) (children s) cs'" by simp
  moreover obtain rest' n' where q: "processSets toLowerCase report sets n = (rest', n')"
    by (cases "processSets toLowerCase report sets n")
  moreover from Cons.IH [of n] q have
    "list_all2 (\<lambda>s s'. list_all2 (flaggedAs toLowerCase) (children s) (children s')) sets rest'"
    by simp
  ultimately show ?case
    using p by simp
qed

text \<open>
  C7. When a report has been loaded, whatever it holds, every component child of every
  component set whose extracted style is \<open>twotone\<close> is handed to
  \<open>markVariantForDeletion\<close>: afterwards its name carries the warning sign and, if its
  strokes can be assigned, it has the red frame. The decision for the style \<open>twotone\<close>
  does not read the report.
\<close>

theorem two_tone_always_flagged:
  assumes "msgType msg = ''load-json''" and "parse (msgContent msg) = Some report"
  shows "(\<exists>sets' markedCount.
            onmessage toLowerCase parse msg componentSets = Inr (sets', Some markedCount)
            \<and> list_all2 (\<lambda>s s'. list_all2 (flaggedAs toLowerCase) (children s) (children s'))
                 componentSets sets')
       \<and> shouldMark toLowerCase report iconName ''twotone'' = Some TwoToneStyle"
proof -
  obtain sets' n where p: "processSets toLowerCase report componentSets 0 = (sets', n)"
    by (cases "processSets toLowerCase report componentSets 0")
  from processSets_flagged [of toLowerCase componentSets report 0] p
  have "list_all2 (\<lambda>s s'. list_all2 (flaggedAs toLowerCase) (children s) (children s'))
          componentSets sets'"
    by simp
  moreover have "onmessage toLowerCase parse msg componentSets = Inr (sets', Some n)"
    using assms p by (simp add: onmessage_def)
  ultimately show ?thesis
    by (auto simp: shouldMark_twotone)
qed

theorem two_tone_always_flagged_witness:
  "msgType \<lparr>msgType = ''load-json'', msgContent = ''{}''\<rparr> = ''load-json''
   \<and> exampleParseReport (msgContent \<lparr>msgType = ''load-json'', msgContent = ''{}''\<rparr>) = Some []
   \<and> (\<exists>sets' markedCount.
         onmessage asciiLower exampleParseReport \<lparr>msgType = ''load-json'', msgContent = ''{}''\<rparr>
           examplePage = Inr (sets', Some markedCount)
         \<and> list_all2 (\<lambda>s s'. list_all2 (flaggedAs asciiLower) (children s) (children s'))
              examplePage sets')
   \<and> twoToneVariant asciiLower
        \<lparr>nodeName = ''Style=Two Tone'', nodeType = ''COMPONENT'', writable = True,
         redStroke = False\<rparr>
   \<and> onmessage asciiLower exampleParseReport \<lparr>msgType = ''load-json'', msgContent = ''{}''\<rparr>
        examplePage =
      Inr ([\<lparr>setName = ''Add_Circle'',
             children =
               [\<lparr>nodeName = ''Style=Two Tone '' @ warnMark, nodeType = ''COMPONENT'',
                 writable = True, redStroke = True\<rparr>,
                \<lparr>nodeName = ''Style=Outlined'', nodeType = ''COMPONENT'', writable = True,
                 redStroke = False\<rparr>]\<rparr>], Some 1)"
proof -
  have a: "msgType \<lparr>msgType = ''load-json'', msgContent = ''{}''\<rparr> = ''load-json''"
    by simp
  have b: "exampleParseReport (msgContent \<lparr>msgType = ''load-json'', msgContent = ''{}''\<rparr>)
             = Some []"
    by (simp add: exampleParseReport_def)
  have t: "twoToneVariant asciiLower
        \<lparr>nodeName = ''Style=Two Tone'', nodeType = ''COMPONENT'', writable = True,
         redStroke = False\<rparr>"
    by code_simp
  have r: "onmessage asciiLower exampleParseReport \<lparr>msgType = ''load-json'', msgContent = ''{}''\<rparr>
        examplePage =
      Inr ([\<lparr>setName = ''Add_Circle'',
             children =
               [\<lparr>nodeName = ''Style=Two Tone '' @ warnMark, nodeType = ''COMPONENT'',
                 writable = True, redStroke = True\<rparr>,
                \<lparr>nodeName = ''Style=Outlined'', nodeType = ''COMPONENT'', writable = True,
                 redStroke = False\<rparr>]\<rparr>], Some 1)"
    by code_simp
  from two_tone_always_flagged [where msg = "\<lparr>msgType = ''load-json'', msgContent = ''{}''\<rparr>"
      and parse = exampleParseReport and report = "[]" and toLowerCase = asciiLower
      and componentSets = examplePage and iconName = "''add_circle''", OF a b] a b t r
  show ?thesis by blast
qed

end
